theory Spec2Isabelle
  imports Main "HOL-Library.Word"
begin

unbundle bit_operations_syntax

section \<open>Machine types and HAL status codes\<close>

type_synonym uint8_t = "8 word"
type_synonym uint16_t = "16 word"
type_synonym uint32_t = "32 word"

text \<open>\<open>HAL_StatusTypeDef\<close> of the STM32 HAL, the result type of every fallible operation.\<close>

datatype HAL_StatusTypeDef = HAL_OK | HAL_ERROR | HAL_BUSY | HAL_TIMEOUT

section \<open>CRC16-CCITT (\<open>lifu_config.c\<close>, lines 9 to 26)\<close>

text \<open>
  One round of the inner loop: if the top bit is set, shift left and XOR with \<open>0x1021\<close>,
  else shift left. The accumulator is a \<open>uint16_t\<close>, so the shift drops the top bit.
\<close>

definition crc16_round :: "uint16_t \<Rightarrow> uint16_t" where
  "crc16_round acc =
     (if acc AND 0x8000 \<noteq> 0 then push_bit 1 acc XOR 0x1021 else push_bit 1 acc)"

text \<open>The body of the outer loop: XOR the byte into the high byte, then eight rounds.\<close>

definition crc16_byte :: "uint16_t \<Rightarrow> uint8_t \<Rightarrow> uint16_t" where
  "crc16_byte acc d = (crc16_round ^^ 8) (acc XOR push_bit 8 (ucast d))"

text \<open>\<open>crc16_ccitt(data, len)\<close>: the accumulator starts at \<open>0xFFFF\<close> and runs over the
  first \<open>len\<close> bytes; there is no final XOR.\<close>

definition crc16_ccitt :: "uint8_t list \<Rightarrow> nat \<Rightarrow> uint16_t" where
  "crc16_ccitt data len = foldl crc16_byte 0xFFFF (take len data)"

section \<open>The configuration record (\<open>lifu_config.h\<close>)\<close>

definition LIFU_MAGIC :: uint32_t where "LIFU_MAGIC = 0x4C494655"
definition LIFU_VER :: uint32_t where "LIFU_VER = 0x00010002"
definition LIFU_CFG_PAGE_SIZE :: nat where "LIFU_CFG_PAGE_SIZE = 2048"
definition LIFU_CFG_HEADER_SIZE :: nat where "LIFU_CFG_HEADER_SIZE = 4 * 4"
definition LIFU_CFG_JSON_MAX :: nat where
  "LIFU_CFG_JSON_MAX = LIFU_CFG_PAGE_SIZE - LIFU_CFG_HEADER_SIZE"

text \<open>
  \<open>lifu_cfg_t\<close>. The header declares \<open>magic\<close>, \<open>version\<close>, \<open>seq\<close>, \<open>crc\<close>, \<open>reserved\<close> and
  \<open>json\<close>, packed, and asserts statically that they fill the 2048 bytes of the page. The
  \<open>char\<close> array \<open>json\<close> is a list of bytes, of length \<open>LIFU_CFG_JSON_MAX\<close> in every
  well-formed record.

  \<open>lifu_config.c\<close> also assigns \<open>hv_settng\<close> (a \<open>uint16_t\<close>, by its comment), \<open>hv_enabled\<close> and
  \<open>auto_on\<close>, which the header under \<open>Core/Inc\<close> does not declare. They are kept as fields
  of the record so that every assignment of the source has its place; the header's layout
  leaves them no byte of the 2048-byte image, so they are not part of \<open>cfg_bytes\<close> below.
\<close>

record lifu_cfg_t =
  magic :: uint32_t
  version :: uint32_t
  seq :: uint32_t
  crc :: uint16_t
  reserved :: uint16_t
  json :: "uint8_t list"
  hv_settng :: uint16_t
  hv_enabled :: uint8_t
  auto_on :: uint8_t

definition wf_cfg :: "lifu_cfg_t \<Rightarrow> bool" where
  "wf_cfg cfg = (length (json cfg) = LIFU_CFG_JSON_MAX)"

subsection \<open>The record as bytes\<close>

text \<open>
  The code reads the record as raw memory (\<open>(const uint8_t *)cfg\<close>, \<open>(uint32_t *)&g_cfg\<close>).
  The target is a little-endian Cortex-M4 and the struct is packed, so the image is the
  fields in declaration order, least significant byte first.
\<close>

definition le16 :: "uint16_t \<Rightarrow> uint8_t list" where
  "le16 w = [ucast w, ucast (drop_bit 8 w)]"

definition le32 :: "uint32_t \<Rightarrow> uint8_t list" where
  "le32 w = [ucast w, ucast (drop_bit 8 w), ucast (drop_bit 16 w), ucast (drop_bit 24 w)]"

definition rd16 :: "uint8_t list \<Rightarrow> uint16_t" where
  "rd16 bs = ucast (bs ! 0) OR push_bit 8 (ucast (bs ! 1))"

definition rd32 :: "uint8_t list \<Rightarrow> uint32_t" where
  "rd32 bs = ucast (bs ! 0) OR push_bit 8 (ucast (bs ! 1))
               OR push_bit 16 (ucast (bs ! 2)) OR push_bit 24 (ucast (bs ! 3))"

definition cfg_bytes :: "lifu_cfg_t \<Rightarrow> uint8_t list" where
  "cfg_bytes cfg =
     le32 (magic cfg) @ le32 (version cfg) @ le32 (seq cfg) @
     le16 (crc cfg) @ le16 (reserved cfg) @ json cfg"

text \<open>Writing a 2048-byte image over the record \<open>old\<close> (the fields outside the image stay).\<close>

definition cfg_of_bytes :: "uint8_t list \<Rightarrow> lifu_cfg_t \<Rightarrow> lifu_cfg_t" where
  "cfg_of_bytes bs old =
     old\<lparr>magic := rd32 (take 4 bs),
         version := rd32 (take 4 (drop 4 bs)),
         seq := rd32 (take 4 (drop 8 bs)),
         crc := rd16 (take 2 (drop 12 bs)),
         reserved := rd16 (take 2 (drop 14 bs)),
         json := take LIFU_CFG_JSON_MAX (drop 16 bs)\<rparr>"

text \<open>\<open>offsetof(lifu_cfg_t, crc)\<close>: three packed 32-bit fields come before \<open>crc\<close>.\<close>

definition offsetof_crc :: nat where "offsetof_crc = 12"

definition lifu_cfg_calc_crc :: "lifu_cfg_t \<Rightarrow> uint16_t" where
  "lifu_cfg_calc_crc cfg = crc16_ccitt (cfg_bytes cfg) offsetof_crc"

section \<open>Helpers of \<open>lifu_config.c\<close>\<close>

text \<open>\<open>strnlen(s, n)\<close>: the number of bytes before the first NUL among the first \<open>n\<close>.\<close>

definition strnlen :: "uint8_t list \<Rightarrow> nat \<Rightarrow> nat" where
  "strnlen s n = length (takeWhile (\<lambda>b. b \<noteq> 0) (take n s))"

text \<open>\<open>memset(&buf[off], v, n)\<close> on a buffer that holds \<open>off + n\<close> bytes.\<close>

definition memset_at :: "uint8_t list \<Rightarrow> nat \<Rightarrow> uint8_t \<Rightarrow> nat \<Rightarrow> uint8_t list" where
  "memset_at buf off v n = take off buf @ replicate n v @ drop (off + n) buf"

text \<open>\<open>memcpy(dst, src, n)\<close>: the first \<open>n\<close> bytes of \<open>dst\<close> are replaced by those of \<open>src\<close>.\<close>

definition memcpy :: "uint8_t list \<Rightarrow> uint8_t list \<Rightarrow> nat \<Rightarrow> uint8_t list" where
  "memcpy dst src n = take n src @ drop n dst"

text \<open>\<open>memchr(s, c, n) != NULL\<close>.\<close>

definition memchr_found :: "uint8_t list \<Rightarrow> uint8_t \<Rightarrow> nat \<Rightarrow> bool" where
  "memchr_found s c n = (c \<in> set (take n s))"

definition lifu_cfg_normalize_json :: "lifu_cfg_t \<Rightarrow> lifu_cfg_t" where
  "lifu_cfg_normalize_json cfg =
     (let j1 = (json cfg)[LIFU_CFG_JSON_MAX - 1 := 0];
          used = strnlen j1 LIFU_CFG_JSON_MAX
      in if used < LIFU_CFG_JSON_MAX - 1
         then cfg\<lparr>json := memset_at j1 (used + 1) 0 ((LIFU_CFG_JSON_MAX - 1) - used)\<rparr>
         else cfg\<lparr>json := j1\<rparr>)"

text \<open>\<open>memset(dst, 0, sizeof(lifu_cfg_t))\<close>.\<close>

definition zero_cfg :: lifu_cfg_t where
  "zero_cfg =
     \<lparr>magic = 0, version = 0, seq = 0, crc = 0, reserved = 0,
      json = replicate LIFU_CFG_JSON_MAX 0,
      hv_settng = 0, hv_enabled = 0, auto_on = 0\<rparr>"

definition lifu_cfg_make_defaults :: "lifu_cfg_t \<Rightarrow> lifu_cfg_t" where
  "lifu_cfg_make_defaults dst =
     (let d0 = zero_cfg;
          d1 = d0\<lparr>magic := LIFU_MAGIC, version := LIFU_VER, seq := 0,
                  hv_settng := 0, hv_enabled := 0, auto_on := 0\<rparr>;
          d2 = d1\<lparr>json := (json d1)[0 := 0]\<rparr>;
          d3 = (if LIFU_CFG_JSON_MAX > 1
                then d2\<lparr>json := memset_at (json d2) 1 0 (LIFU_CFG_JSON_MAX - 1)\<rparr>
                else d2);
          d4 = lifu_cfg_normalize_json d3
      in d4\<lparr>crc := lifu_cfg_calc_crc d4\<rparr>)"

definition lifu_cfg_is_valid :: "lifu_cfg_t \<Rightarrow> bool" where
  "lifu_cfg_is_valid cfg =
     (if magic cfg \<noteq> LIFU_MAGIC then False
      else if version cfg \<noteq> LIFU_VER then False
      else if \<not> memchr_found (json cfg) 0 LIFU_CFG_JSON_MAX then False
      else if lifu_cfg_calc_crc cfg \<noteq> crc cfg then False
      else True)"

section \<open>The flash controller\<close>

text \<open>
  Modelled from the spec: the STM32 HAL flash driver (\<open>HAL_FLASH_Unlock\<close>, \<open>HAL_FLASH_Lock\<close>,
  \<open>HAL_FLASHEx_Erase\<close>, \<open>HAL_FLASH_Program\<close>) and the constants of \<open>memory_map.h\<close> and of the
  device header, none of which is among the sources. The flash is a byte-addressed memory.
  A successful erase leaves every byte of the erased pages at \<open>0xFF\<close>. Programming can only
  clear bits, so a doubleword reads back as written exactly when its destination was
  erased. Each fallible HAL call takes its status from the head of \<open>faults\<close>, a script of
  the hardware's answers; an empty script is hardware that always answers \<open>HAL_OK\<close>. A call
  that fails leaves the memory as it was. \<open>ops\<close> records every read, erase and program
  request, most recent first.
\<close>

datatype flash_op =
  OpRead uint32_t nat
  | OpErase uint32_t uint32_t uint32_t
  | OpProgram uint32_t "uint8_t list"

record flash_hw =
  mem :: "uint32_t \<Rightarrow> uint8_t"
  faults :: "HAL_StatusTypeDef list"
  locked :: bool
  ops :: "flash_op list"

definition FLASH_BASE :: uint32_t where "FLASH_BASE = 0x08000000"
definition FLASH_PAGE_SIZE :: uint32_t where "FLASH_PAGE_SIZE = 0x800"
definition FLASH_BANK_SIZE :: uint32_t where "FLASH_BANK_SIZE = 0x40000"
definition FLASH_BANK_1 :: uint32_t where "FLASH_BANK_1 = 1"

text \<open>The page of the record: \<open>lifu_config.h\<close> places it at \<open>0x0803F800\<close>, the last 2 KB page;
  its end, which \<open>Flash_Erase\<close> takes as exclusive, is the end of the flash.\<close>

definition LIFU_CFG_PAGE_ADDR :: uint32_t where "LIFU_CFG_PAGE_ADDR = 0x0803F800"
definition LIFU_CFG_PAGE_END :: uint32_t where "LIFU_CFG_PAGE_END = 0x08040000"

definition hal_result :: "flash_hw \<Rightarrow> HAL_StatusTypeDef \<times> flash_hw" where
  "hal_result hw =
     (case faults hw of
        [] \<Rightarrow> (HAL_OK, hw)
      | st # rest \<Rightarrow> (st, hw\<lparr>faults := rest\<rparr>))"

definition HAL_FLASH_Unlock :: "flash_hw \<Rightarrow> HAL_StatusTypeDef \<times> flash_hw" where
  "HAL_FLASH_Unlock hw =
     (let (st, hw1) = hal_result hw
      in if st = HAL_OK then (HAL_OK, hw1\<lparr>locked := False\<rparr>) else (st, hw1))"

definition HAL_FLASH_Lock :: "flash_hw \<Rightarrow> flash_hw" where
  "HAL_FLASH_Lock hw = hw\<lparr>locked := True\<rparr>"

text \<open>Reading \<open>n\<close> bytes of the memory-mapped flash from \<open>a\<close> on.\<close>

definition load_bytes :: "(uint32_t \<Rightarrow> uint8_t) \<Rightarrow> uint32_t \<Rightarrow> nat \<Rightarrow> uint8_t list" where
  "load_bytes m a n = map (\<lambda>i. m (a + of_nat i)) [0..<n]"

text \<open>Programming bytes from \<open>a\<close> on: each cell keeps only the bits that both its old
  content and the new byte have.\<close>

fun nor_store ::
  "(uint32_t \<Rightarrow> uint8_t) \<Rightarrow> uint32_t \<Rightarrow> uint8_t list \<Rightarrow> (uint32_t \<Rightarrow> uint8_t)" where
  "nor_store m a [] = m"
| "nor_store m a (b # bs) = nor_store (m(a := m a AND b)) (a + 1) bs"

section \<open>The flash primitive layer (\<open>flash_eeprom.c\<close>)\<close>

definition GetPage :: "uint32_t \<Rightarrow> uint32_t" where
  "GetPage Addr =
     (if Addr < FLASH_BASE + FLASH_BANK_SIZE
      then (Addr - FLASH_BASE) div FLASH_PAGE_SIZE
      else (Addr - (FLASH_BASE + FLASH_BANK_SIZE)) div FLASH_PAGE_SIZE)"

text \<open>\<open>GetBank\<close>: the device header of the STM32L443 defines no \<open>FLASH_OPTR_DBANK\<close>, so the
  \<open>#else\<close> branch is the one compiled.\<close>

definition GetBank :: "uint32_t \<Rightarrow> uint32_t" where
  "GetBank Addr = FLASH_BANK_1"

text \<open>The bytes that erasing \<open>n\<close> pages of bank 1 from page \<open>page\<close> on reaches.\<close>

definition in_erased_pages :: "uint32_t \<Rightarrow> uint32_t \<Rightarrow> uint32_t \<Rightarrow> uint32_t \<Rightarrow> bool" where
  "in_erased_pages bank page n a =
     (bank = FLASH_BANK_1 \<and> FLASH_BASE \<le> a \<and> a < FLASH_BASE + FLASH_BANK_SIZE \<and>
      unat page \<le> unat (GetPage a) \<and> unat (GetPage a) < unat page + unat n)"

definition HAL_FLASHEx_Erase ::
  "flash_hw \<Rightarrow> uint32_t \<Rightarrow> uint32_t \<Rightarrow> uint32_t \<Rightarrow> HAL_StatusTypeDef \<times> flash_hw" where
  "HAL_FLASHEx_Erase hw bank page n =
     (let (st, hw1) = hal_result (hw\<lparr>ops := OpErase bank page n # ops hw\<rparr>)
      in if st = HAL_OK
         then (HAL_OK,
               hw1\<lparr>mem := (\<lambda>a. if in_erased_pages bank page n a then 0xFF else mem hw1 a)\<rparr>)
         else (st, hw1))"

text \<open>\<open>HAL_FLASH_Program(FLASH_TYPEPROGRAM_DOUBLEWORD, addr, dw)\<close>; the doubleword is kept
  as its eight bytes in memory order.\<close>

definition HAL_FLASH_Program ::
  "flash_hw \<Rightarrow> uint32_t \<Rightarrow> uint8_t list \<Rightarrow> HAL_StatusTypeDef \<times> flash_hw" where
  "HAL_FLASH_Program hw addr dw =
     (let (st, hw1) = hal_result (hw\<lparr>ops := OpProgram addr dw # ops hw\<rparr>)
      in if st = HAL_OK
         then (HAL_OK, hw1\<lparr>mem := nor_store (mem hw1) addr dw\<rparr>)
         else (st, hw1))"

text \<open>\<open>Flash_ClearErrors\<close> clears flags of the controller's status register, which the
  model does not carry.\<close>

definition Flash_ClearErrors :: "flash_hw \<Rightarrow> flash_hw" where
  "Flash_ClearErrors hw = hw"

definition Flash_Erase :: "flash_hw \<Rightarrow> uint32_t \<Rightarrow> uint32_t \<Rightarrow> HAL_StatusTypeDef \<times> flash_hw" where
  "Flash_Erase hw start_address end_address_exclusive =
     (if end_address_exclusive \<le> start_address then (HAL_ERROR, hw)
      else
        (let (st, hw1) = HAL_FLASH_Unlock hw
         in if st \<noteq> HAL_OK then (st, hw1)
            else
              (let hw2 = Flash_ClearErrors hw1;
                   page_first = GetPage start_address;
                   page_last = GetPage (end_address_exclusive - 1);
                   pages = (page_last - page_first) + 1;
                   (st2, hw3) = HAL_FLASHEx_Erase hw2 (GetBank start_address) page_first pages
               in (st2, HAL_FLASH_Lock hw3))))"

text \<open>\<open>Flash_Read\<close>: a \<open>memcpy\<close> out of the memory-mapped flash into the caller's buffer,
  noted in \<open>ops\<close>.\<close>

definition Flash_Read ::
  "flash_hw \<Rightarrow> uint32_t \<Rightarrow> uint8_t list \<Rightarrow> uint32_t \<Rightarrow>
     HAL_StatusTypeDef \<times> uint8_t list \<times> flash_hw" where
  "Flash_Read hw address dst size_bytes =
     (HAL_OK,
      memcpy dst (load_bytes (mem hw) address (unat size_bytes)) (unat size_bytes),
      hw\<lparr>ops := OpRead address (unat size_bytes) # ops hw\<rparr>)"

text \<open>
  The two loops of \<open>Flash_Write\<close>, after the unlock: full 8-byte chunks while at least 8
  bytes remain, then one doubleword for a tail of 1 to 7 bytes, padded with \<open>0xFF\<close>.
  \<open>p\<close> is the caller's buffer from the read pointer on, \<open>size_bytes\<close> what remains. Where
  the buffer holds fewer bytes than \<open>size_bytes\<close> says, the C code reads past its end; the
  model programs the bytes there are and the read-back fails.
\<close>

fun Flash_Write_chunks ::
  "flash_hw \<Rightarrow> uint32_t \<Rightarrow> uint8_t list \<Rightarrow> nat \<Rightarrow> HAL_StatusTypeDef \<times> flash_hw" where
  "Flash_Write_chunks hw addr p size_bytes =
     (if 8 \<le> size_bytes then
        (let dw = take 8 p;
             (st, hw1) = HAL_FLASH_Program hw addr dw
         in if st \<noteq> HAL_OK then (st, HAL_FLASH_Lock hw1)
            else if load_bytes (mem hw1) addr 8 \<noteq> dw then (HAL_ERROR, HAL_FLASH_Lock hw1)
            else Flash_Write_chunks hw1 (addr + 8) (drop 8 p) (size_bytes - 8))
      else if 0 < size_bytes then
        (let tmp = memcpy (replicate 8 0xFF) p size_bytes;
             dw = tmp;
             (st, hw1) = HAL_FLASH_Program hw addr dw
         in if st \<noteq> HAL_OK then (st, HAL_FLASH_Lock hw1)
            else if load_bytes (mem hw1) addr 8 \<noteq> dw then (HAL_ERROR, HAL_FLASH_Lock hw1)
            else (HAL_OK, HAL_FLASH_Lock hw1))
      else (HAL_OK, HAL_FLASH_Lock hw))"

declare Flash_Write_chunks.simps [simp del]

definition Flash_Write ::
  "flash_hw \<Rightarrow> uint32_t \<Rightarrow> uint8_t list \<Rightarrow> uint32_t \<Rightarrow> HAL_StatusTypeDef \<times> flash_hw" where
  "Flash_Write hw address src size_bytes =
     (if size_bytes = 0 then (HAL_OK, hw)
      else if address AND 0x7 \<noteq> 0 then (HAL_ERROR, hw)
      else
        (let (st, hw1) = HAL_FLASH_Unlock hw
         in if st \<noteq> HAL_OK then (st, hw1)
            else Flash_Write_chunks (Flash_ClearErrors hw1) address src (unat size_bytes)))"

section \<open>The configuration store (\<open>lifu_config.c\<close>)\<close>

text \<open>The two file-scope variables of \<open>lifu_config.c\<close>, and the flash they are backed by.\<close>

record store =
  g_cfg :: lifu_cfg_t
  g_cfg_loaded :: bool
  flash :: flash_hw

text \<open>\<open>sizeof(lifu_cfg_t) / sizeof(uint32_t)\<close>, the count both flash calls are given.\<close>

definition cfg_words :: uint32_t where
  "cfg_words = of_nat (LIFU_CFG_PAGE_SIZE div 4)"

definition lifu_cfg_writeback :: "store \<Rightarrow> HAL_StatusTypeDef \<times> store" where
  "lifu_cfg_writeback s =
     (let c1 = (g_cfg s)\<lparr>seq := seq (g_cfg s) + 1\<rparr>;
          c2 = lifu_cfg_normalize_json c1;
          c3 = c2\<lparr>crc := lifu_cfg_calc_crc c2\<rparr>;
          (st, hw1) = Flash_Erase (flash s) LIFU_CFG_PAGE_ADDR LIFU_CFG_PAGE_END
      in if st \<noteq> HAL_OK then (st, s\<lparr>g_cfg := c3, flash := hw1\<rparr>)
         else
           (let (st2, hw2) = Flash_Write hw1 LIFU_CFG_PAGE_ADDR (cfg_bytes c3) cfg_words
            in (st2, s\<lparr>g_cfg := c3, flash := hw2\<rparr>)))"

definition lifu_cfg_load_raw :: "store \<Rightarrow> store" where
  "lifu_cfg_load_raw s =
     (let (st, buf, hw1) = Flash_Read (flash s) LIFU_CFG_PAGE_ADDR (cfg_bytes (g_cfg s)) cfg_words
      in s\<lparr>g_cfg := cfg_of_bytes buf (g_cfg s), flash := hw1\<rparr>)"

definition lifu_cfg_ensure_loaded :: "store \<Rightarrow> store" where
  "lifu_cfg_ensure_loaded s =
     (if g_cfg_loaded s then s
      else
        (let s1 = lifu_cfg_load_raw s;
             s2 = (if \<not> lifu_cfg_is_valid (g_cfg s1)
                   then snd (lifu_cfg_writeback (s1\<lparr>g_cfg := lifu_cfg_make_defaults (g_cfg s1)\<rparr>))
                   else s1)
         in s2\<lparr>g_cfg_loaded := True\<rparr>))"

text \<open>\<open>lifu_cfg_get\<close> returns a pointer to \<open>g_cfg\<close>: the caller sees the cached record.\<close>

definition lifu_cfg_get :: "store \<Rightarrow> lifu_cfg_t \<times> store" where
  "lifu_cfg_get s = (let s1 = lifu_cfg_ensure_loaded s in (g_cfg s1, s1))"

text \<open>\<open>lifu_cfg_snapshot(out)\<close>: \<open>None\<close> is the null pointer, \<open>Some b\<close> a buffer holding \<open>b\<close>;
  the buffer after the call is returned with the status.\<close>

definition lifu_cfg_snapshot ::
  "lifu_cfg_t option \<Rightarrow> store \<Rightarrow> HAL_StatusTypeDef \<times> lifu_cfg_t option \<times> store" where
  "lifu_cfg_snapshot out s =
     (case out of
        None \<Rightarrow> (HAL_ERROR, None, s)
      | Some b \<Rightarrow> (let s1 = lifu_cfg_ensure_loaded s in (HAL_OK, Some (g_cfg s1), s1)))"

definition lifu_cfg_save :: "lifu_cfg_t \<Rightarrow> store \<Rightarrow> HAL_StatusTypeDef \<times> store" where
  "lifu_cfg_save new_cfg s =
     (let s1 = lifu_cfg_ensure_loaded s;
          c1 = (g_cfg s1)\<lparr>magic := LIFU_MAGIC, version := LIFU_VER\<rparr>;
          c2 = c1\<lparr>hv_settng := hv_settng new_cfg,
                  hv_enabled := hv_enabled new_cfg,
                  auto_on := auto_on new_cfg\<rparr>;
          c3 = c2\<lparr>json := memcpy (json c2) (json new_cfg) LIFU_CFG_JSON_MAX\<rparr>;
          c4 = c3\<lparr>json := (json c3)[LIFU_CFG_JSON_MAX - 1 := 0]\<rparr>
      in lifu_cfg_writeback (s1\<lparr>g_cfg := c4\<rparr>))"

definition lifu_cfg_commit :: "store \<Rightarrow> HAL_StatusTypeDef \<times> store" where
  "lifu_cfg_commit s = lifu_cfg_writeback (lifu_cfg_ensure_loaded s)"

definition lifu_cfg_factory_reset :: "store \<Rightarrow> HAL_StatusTypeDef \<times> store" where
  "lifu_cfg_factory_reset s =
     (let s1 = lifu_cfg_ensure_loaded s
      in lifu_cfg_writeback (s1\<lparr>g_cfg := lifu_cfg_make_defaults (g_cfg s1)\<rparr>))"

text \<open>Process start: both statics are zero-initialised.\<close>

definition power_on :: "flash_hw \<Rightarrow> store" where
  "power_on hw = \<lparr>g_cfg = zero_cfg, g_cfg_loaded = False, flash = hw\<rparr>"

text \<open>The public operations as values, and running one or a sequence of them.\<close>

datatype store_op =
  Get
  | Snapshot "lifu_cfg_t option"
  | Save lifu_cfg_t
  | Commit
  | FactoryReset

fun run_op :: "store_op \<Rightarrow> store \<Rightarrow> store" where
  "run_op Get s = snd (lifu_cfg_get s)"
| "run_op (Snapshot out) s = snd (snd (lifu_cfg_snapshot out s))"
| "run_op (Save c) s = snd (lifu_cfg_save c s)"
| "run_op Commit s = snd (lifu_cfg_commit s)"
| "run_op FactoryReset s = snd (lifu_cfg_factory_reset s)"

fun run_ops :: "store_op list \<Rightarrow> store \<Rightarrow> store" where
  "run_ops [] s = s"
| "run_ops (x # xs) s = run_ops xs (run_op x s)"

text \<open>Save is given a \<open>lifu_cfg_t\<close>, whose \<open>json\<close> array has its full size.\<close>

fun wf_op :: "store_op \<Rightarrow> bool" where
  "wf_op (Save c) = wf_cfg c"
| "wf_op Get = True"
| "wf_op (Snapshot out) = True"
| "wf_op Commit = True"
| "wf_op FactoryReset = True"

text \<open>A flash with every byte erased, as on first boot, on hardware that never fails.\<close>

definition blank_flash :: flash_hw where
  "blank_flash = \<lparr>mem = (\<lambda>a. 0xFF), faults = [], locked = True, ops = []\<rparr>"

text \<open>What the public operations keep true of the two statics: the cached record has its
  full size, and once the loaded flag is set the record passes \<open>lifu_cfg_is_valid\<close>.\<close>

definition store_inv :: "store \<Rightarrow> bool" where
  "store_inv s =
     (wf_cfg (g_cfg s) \<and> (if g_cfg_loaded s then lifu_cfg_is_valid (g_cfg s) else True))"

text \<open>A candidate for \<open>lifu_cfg_save\<close> with a foreign header and two strings in its
  payload: \<open>"A"\<close>, a NUL, then \<open>"B"\<close>.\<close>

definition cand_two_strings :: lifu_cfg_t where
  "cand_two_strings =
     \<lparr>magic = 0xDEADBEEF, version = 0, seq = 77, crc = 0x1234, reserved = 0,
      json = [0x41, 0, 0x42] @ replicate 2029 0,
      hv_settng = 500, hv_enabled = 1, auto_on = 1\<rparr>"

text \<open>A flash whose configuration page holds the bytes \<open>img\<close> and is erased elsewhere, on
  hardware that never fails.\<close>

definition flash_holding :: "uint8_t list \<Rightarrow> flash_hw" where
  "flash_holding img =
     \<lparr>mem = (\<lambda>a. if LIFU_CFG_PAGE_ADDR \<le> a \<and> a < LIFU_CFG_PAGE_END \<and>
                     unat (a - LIFU_CFG_PAGE_ADDR) < length img
                  then img ! unat (a - LIFU_CFG_PAGE_ADDR) else 0xFF),
      faults = [], locked = True, ops = []\<rparr>"

text \<open>The default record with its write counter at the last value of a \<open>uint32_t\<close>, and the
  checksum that goes with it.\<close>

definition last_seq_cfg :: lifu_cfg_t where
  "last_seq_cfg =
     (let c = (lifu_cfg_make_defaults zero_cfg)\<lparr>seq := 0xFFFFFFFF\<rparr>
      in c\<lparr>crc := lifu_cfg_calc_crc c\<rparr>)"

text \<open>
  \<open>lifu_config.h\<close> documents \<open>lifu_cfg_commit\<close> for a caller that has mutated
  \<open>*lifu_cfg_get()\<close> directly. Such an edit in place replaces the cached record behind the
  store's back; a C caller cannot change the size of the \<open>json\<close> array. Two edits used
  below: one that sets \<open>magic\<close>, one that fills the whole payload with one byte.
\<close>

definition edit_in_place :: "(lifu_cfg_t \<Rightarrow> lifu_cfg_t) \<Rightarrow> store \<Rightarrow> store" where
  "edit_in_place f s = s\<lparr>g_cfg := f (g_cfg s)\<rparr>"

definition set_magic :: "uint32_t \<Rightarrow> lifu_cfg_t \<Rightarrow> lifu_cfg_t" where
  "set_magic m c = c\<lparr>magic := m\<rparr>"

definition fill_json :: "uint8_t \<Rightarrow> lifu_cfg_t \<Rightarrow> lifu_cfg_t" where
  "fill_json b c = c\<lparr>json := replicate LIFU_CFG_JSON_MAX b\<rparr>"

text \<open>The whole 2048-byte page of the flash read as a \<open>lifu_cfg_t\<close>.\<close>

definition page_record :: "flash_hw \<Rightarrow> lifu_cfg_t" where
  "page_record hw =
     cfg_of_bytes (load_bytes (mem hw) LIFU_CFG_PAGE_ADDR LIFU_CFG_PAGE_SIZE) zero_cfg"

text \<open>The status of the write-back that \<open>lifu_cfg_ensure_loaded\<close> runs on an invalid page
  and casts to \<open>void\<close>.\<close>

definition regeneration_status :: "store \<Rightarrow> HAL_StatusTypeDef" where
  "regeneration_status s =
     fst (lifu_cfg_writeback
            ((lifu_cfg_load_raw s)\<lparr>g_cfg := lifu_cfg_make_defaults (g_cfg (lifu_cfg_load_raw s))\<rparr>))"


section \<open>Facts about the helpers\<close>

lemma JSON_MAX_val: "LIFU_CFG_JSON_MAX = 2032"
  by (simp add: LIFU_CFG_JSON_MAX_def LIFU_CFG_PAGE_SIZE_def LIFU_CFG_HEADER_SIZE_def)

lemma memchr_found_iff:
  "memchr_found s c n = (\<exists>i<n. i < length s \<and> s ! i = c)"
  by (auto simp: memchr_found_def in_set_conv_nth)

lemma strnlen_le: "strnlen s n \<le> min n (length s)"
  unfolding strnlen_def
  by (metis length_take length_takeWhile_le min.commute)

lemma normalize_length:
  assumes "wf_cfg cfg"
  shows "length (json (lifu_cfg_normalize_json cfg)) = length (json cfg)"
  using assms strnlen_le[of "(json cfg)[LIFU_CFG_JSON_MAX - 1 := 0]" LIFU_CFG_JSON_MAX]
  by (auto simp: lifu_cfg_normalize_json_def Let_def memset_at_def wf_cfg_def)

lemma normalize_last:
  assumes "wf_cfg cfg"
  shows "json (lifu_cfg_normalize_json cfg) ! (LIFU_CFG_JSON_MAX - 1) = 0"
  using assms strnlen_le[of "(json cfg)[LIFU_CFG_JSON_MAX - 1 := 0]" LIFU_CFG_JSON_MAX]
  by (auto simp: lifu_cfg_normalize_json_def Let_def memset_at_def wf_cfg_def nth_append
      JSON_MAX_val)

lemma normalize_fields:
  "magic (lifu_cfg_normalize_json cfg) = magic cfg"
  "version (lifu_cfg_normalize_json cfg) = version cfg"
  "seq (lifu_cfg_normalize_json cfg) = seq cfg"
  "crc (lifu_cfg_normalize_json cfg) = crc cfg"
  "reserved (lifu_cfg_normalize_json cfg) = reserved cfg"
  "hv_settng (lifu_cfg_normalize_json cfg) = hv_settng cfg"
  "hv_enabled (lifu_cfg_normalize_json cfg) = hv_enabled cfg"
  "auto_on (lifu_cfg_normalize_json cfg) = auto_on cfg"
  by (simp_all add: lifu_cfg_normalize_json_def Let_def)

text \<open>The checksum reads the twelve bytes before \<open>crc\<close>: \<open>magic\<close>, \<open>version\<close> and \<open>seq\<close>.\<close>

lemma calc_crc_header:
  "lifu_cfg_calc_crc cfg =
     crc16_ccitt (le32 (magic cfg) @ le32 (version cfg) @ le32 (seq cfg)) 12"
  by (simp add: lifu_cfg_calc_crc_def crc16_ccitt_def cfg_bytes_def offsetof_crc_def le32_def)

lemma is_valid_fields:
  assumes "lifu_cfg_is_valid cfg"
  shows "magic cfg = LIFU_MAGIC" and "version cfg = LIFU_VER"
    and "lifu_cfg_calc_crc cfg = crc cfg"
  using assms by (simp_all add: lifu_cfg_is_valid_def split: if_splits)

section \<open>Facts about the defaults\<close>

lemma length_cfg_bytes: "length (cfg_bytes cfg) = 16 + length (json cfg)"
  by (simp add: cfg_bytes_def le32_def le16_def)

lemma normalize_json_only:
  "json (lifu_cfg_normalize_json (cfg\<lparr>seq := x\<rparr>)) = json (lifu_cfg_normalize_json cfg)"
  by (simp add: lifu_cfg_normalize_json_def Let_def)

lemma list_update_replicate_same: "(replicate n x)[i := x] = replicate n x"
  by (induction n arbitrary: i) (auto split: nat.splits)

lemma strnlen_replicate_zero: "strnlen (replicate n 0) m = 0"
  by (cases "min m n") (simp_all add: strnlen_def)

lemma memset_zero_tail: "0 < n \<Longrightarrow> memset_at (replicate n 0) (Suc 0) 0 (n - Suc 0) = replicate n 0"
  by (cases n) (simp_all add: memset_at_def)

lemma JSON_MAX_gt: "Suc 0 < LIFU_CFG_JSON_MAX" "0 < LIFU_CFG_JSON_MAX" "0 < LIFU_CFG_JSON_MAX - Suc 0"
  by (simp_all add: JSON_MAX_val)

lemma normalize_zero_json:
  assumes "json cfg = replicate LIFU_CFG_JSON_MAX 0"
  shows "lifu_cfg_normalize_json cfg = cfg"
proof -
  have "cfg\<lparr>json := replicate LIFU_CFG_JSON_MAX 0\<rparr> = cfg"
    by (simp add: assms[symmetric])
  then show ?thesis
    by (simp add: lifu_cfg_normalize_json_def assms list_update_replicate_same
        strnlen_replicate_zero memset_zero_tail JSON_MAX_gt)
qed

lemma make_defaults_eq:
  "lifu_cfg_make_defaults dst =
     \<lparr>magic = LIFU_MAGIC, version = LIFU_VER, seq = 0,
      crc = crc16_ccitt (le32 LIFU_MAGIC @ le32 LIFU_VER @ le32 0) 12, reserved = 0,
      json = replicate LIFU_CFG_JSON_MAX 0,
      hv_settng = 0, hv_enabled = 0, auto_on = 0\<rparr>"
  unfolding lifu_cfg_make_defaults_def Let_def
  by (simp add: zero_cfg_def list_update_replicate_same memset_zero_tail normalize_zero_json
      calc_crc_header JSON_MAX_gt)

section \<open>The check value of the checksum\<close>

text \<open>The checksum of the ASCII digits \<open>"123456789"\<close> is \<open>0x29B1\<close>, the check value of
  CRC-16/CCITT-FALSE; one lemma for each byte.\<close>

lemma eight_rounds: "(8::nat) = Suc (Suc (Suc (Suc (Suc (Suc (Suc (Suc 0)))))))"
  by simp

lemma crc16_byte_check_1: "crc16_byte 0xFFFF 0x31 = 0xC782"
  unfolding crc16_byte_def eight_rounds funpow.simps o_def id_def
  by (simp add: crc16_round_def)

lemma crc16_byte_check_2: "crc16_byte 0xC782 0x32 = 0x3DBA"
  unfolding crc16_byte_def eight_rounds funpow.simps o_def id_def
  by (simp add: crc16_round_def)

lemma crc16_byte_check_3: "crc16_byte 0x3DBA 0x33 = 0x5BCE"
  unfolding crc16_byte_def eight_rounds funpow.simps o_def id_def
  by (simp add: crc16_round_def)

lemma crc16_byte_check_4: "crc16_byte 0x5BCE 0x34 = 0x5349"
  unfolding crc16_byte_def eight_rounds funpow.simps o_def id_def
  by (simp add: crc16_round_def)

lemma crc16_byte_check_5: "crc16_byte 0x5349 0x35 = 0x4560"
  unfolding crc16_byte_def eight_rounds funpow.simps o_def id_def
  by (simp add: crc16_round_def)

lemma crc16_byte_check_6: "crc16_byte 0x4560 0x36 = 0x2EF4"
  unfolding crc16_byte_def eight_rounds funpow.simps o_def id_def
  by (simp add: crc16_round_def)

lemma crc16_byte_check_7: "crc16_byte 0x2EF4 0x37 = 0x7718"
  unfolding crc16_byte_def eight_rounds funpow.simps o_def id_def
  by (simp add: crc16_round_def)

lemma crc16_byte_check_8: "crc16_byte 0x7718 0x38 = 0xA12B"
  unfolding crc16_byte_def eight_rounds funpow.simps o_def id_def
  by (simp add: crc16_round_def)

lemma crc16_byte_check_9: "crc16_byte 0xA12B 0x39 = 0x29B1"
  unfolding crc16_byte_def eight_rounds funpow.simps o_def id_def
  by (simp add: crc16_round_def)

lemma crc16_ccitt_check_value:
  "crc16_ccitt [0x31, 0x32, 0x33, 0x34, 0x35, 0x36, 0x37, 0x38, 0x39] 9 = 0x29B1"
  by (simp add: crc16_ccitt_def crc16_byte_check_1 crc16_byte_check_2 crc16_byte_check_3
      crc16_byte_check_4 crc16_byte_check_5 crc16_byte_check_6 crc16_byte_check_7
      crc16_byte_check_8 crc16_byte_check_9)

section \<open>Facts about the flash layer\<close>

lemma hal_result_ok: "faults hw = [] \<Longrightarrow> hal_result hw = (HAL_OK, hw)"
  by (simp add: hal_result_def)

text \<open>Were \<open>LIFU_CFG_PAGE_END\<close> the last address \<open>0x0803FFFF\<close> instead, \<open>Flash_Erase\<close> would
  compute the same last page.\<close>

lemma GetPage_last_address: "GetPage (0x0803FFFF - 1) = 127"
  by (simp add: GetPage_def FLASH_BASE_def FLASH_BANK_SIZE_def FLASH_PAGE_SIZE_def)

lemma GetPage_cfg: "GetPage LIFU_CFG_PAGE_ADDR = 127" "GetPage (LIFU_CFG_PAGE_END - 1) = 127"
  by (simp_all add: GetPage_def LIFU_CFG_PAGE_ADDR_def LIFU_CFG_PAGE_END_def FLASH_BASE_def FLASH_BANK_SIZE_def FLASH_PAGE_SIZE_def)

lemma Flash_Erase_ok:
  assumes "faults hw = []"
  shows "Flash_Erase hw LIFU_CFG_PAGE_ADDR LIFU_CFG_PAGE_END =
     (HAL_OK, hw\<lparr>locked := True, ops := OpErase FLASH_BANK_1 127 1 # ops hw,
                  mem := (\<lambda>a. if in_erased_pages FLASH_BANK_1 127 1 a then 0xFF else mem hw a)\<rparr>)"
proof -
  have "\<not> LIFU_CFG_PAGE_END \<le> LIFU_CFG_PAGE_ADDR"
    by (simp add: LIFU_CFG_PAGE_ADDR_def LIFU_CFG_PAGE_END_def)
  then show ?thesis using assms
    by (simp add: Flash_Erase_def HAL_FLASH_Unlock_def hal_result_def Flash_ClearErrors_def
        GetPage_cfg GetBank_def HAL_FLASHEx_Erase_def HAL_FLASH_Lock_def Let_def
        cong del: if_weak_cong)
qed

lemma in_erased_cfg_page:
  "in_erased_pages FLASH_BANK_1 127 1 a = (LIFU_CFG_PAGE_ADDR \<le> a \<and> a < LIFU_CFG_PAGE_END)"
  unfolding in_erased_pages_def GetPage_def LIFU_CFG_PAGE_ADDR_def LIFU_CFG_PAGE_END_def
    FLASH_BASE_def FLASH_BANK_SIZE_def FLASH_PAGE_SIZE_def
  apply (simp add: word_le_nat_alt word_less_nat_alt unat_div)
  apply (cases "134217728 \<le> unat a")
   apply (simp add: unat_sub word_le_nat_alt)
   apply arith
  apply simp
  done

lemma of_nat_inj32:
  assumes "i < 2 ^ 32" "k < 2 ^ 32"
  shows "((of_nat i :: uint32_t) = of_nat k) = (i = k)"
  using assms by (simp add: word_of_nat_eq_iff take_bit_nat_eq_self)

lemma addr_off_inj:
  assumes "i < 2 ^ 32" "k < 2 ^ 32"
  shows "((a :: uint32_t) + of_nat i = a + of_nat k) = (i = k)"
  using of_nat_inj32[OF assms] by simp

lemma nor_store_other:
  "(\<And>j. j < length bs \<Longrightarrow> a + of_nat j \<noteq> x) \<Longrightarrow> nor_store m a bs x = m x"
proof (induction bs arbitrary: m a)
  case Nil
  then show ?case by simp
next
  case (Cons b bs)
  have a: "a \<noteq> x" using Cons.prems[of 0] by simp
  have "nor_store (m(a := m a AND b)) (a + 1) bs x = (m(a := m a AND b)) x"
  proof (rule Cons.IH)
    fix j assume "j < length bs"
    then show "a + 1 + of_nat j \<noteq> x" using Cons.prems[of "Suc j"] by (simp add: add.assoc)
  qed
  with a show ?case by simp
qed

lemma nor_store_at:
  "length bs \<le> 2 ^ 32 \<Longrightarrow> j < length bs \<Longrightarrow>
     nor_store m a bs (a + of_nat j) = m (a + of_nat j) AND bs ! j"
proof (induction bs arbitrary: m a j)
  case Nil
  then show ?case by simp
next
  case (Cons b bs)
  show ?case
  proof (cases j)
    case 0
    have "nor_store (m(a := m a AND b)) (a + 1) bs a = (m(a := m a AND b)) a"
    proof (rule nor_store_other)
      fix k assume k: "k < length bs"
      have "a + of_nat (Suc k) \<noteq> a + of_nat 0"
        using addr_off_inj[of "Suc k" 0 a] k Cons.prems(1) by simp
      then show "a + 1 + of_nat k \<noteq> a" by (simp add: add.assoc)
    qed
    with 0 show ?thesis by simp
  next
    case (Suc k)
    have k: "k < length bs" "length bs \<le> 2 ^ 32" using Suc Cons.prems by simp_all
    have ne: "a + 1 + of_nat k \<noteq> a"
      using addr_off_inj[of "Suc k" 0 a] k Cons.prems(1) by (simp add: add.assoc)
    have "nor_store (m(a := m a AND b)) (a + 1) bs (a + 1 + of_nat k)
          = (m(a := m a AND b)) (a + 1 + of_nat k) AND bs ! k"
      by (rule Cons.IH[OF k(2) k(1)])
    with ne Suc show ?thesis by (simp add: add.assoc)
  qed
qed

lemma ff_and: "(0xFF :: uint8_t) AND x = x"
proof -
  have "(0xFF :: uint8_t) = - 1" by simp
  then show ?thesis by (simp only: and.left_neutral)
qed

lemma load_bytes_nor_store_erased:
  assumes "length dw = 8" "\<And>j. j < 8 \<Longrightarrow> m (a + of_nat j) = 0xFF"
  shows "load_bytes (nor_store m a dw) a 8 = dw"
proof (rule nth_equalityI)
  show "length (load_bytes (nor_store m a dw) a 8) = length dw"
    using assms by (simp add: load_bytes_def)
next
  fix i assume "i < length (load_bytes (nor_store m a dw) a 8)"
  then have i: "i < 8" by (simp add: load_bytes_def)
  have "nor_store m a dw (a + of_nat i) = m (a + of_nat i) AND dw ! i"
    using nor_store_at[of dw i m a] assms(1) i by simp
  then show "load_bytes (nor_store m a dw) a 8 ! i = dw ! i"
    using i assms(2)[of i] by (simp add: load_bytes_def ff_and)
qed

lemma HAL_FLASH_Program_ok:
  "faults hw = [] \<Longrightarrow> HAL_FLASH_Program hw addr dw =
     (HAL_OK, hw\<lparr>ops := OpProgram addr dw # ops hw, mem := nor_store (mem hw) addr dw\<rparr>)"
  by (simp add: HAL_FLASH_Program_def hal_result_def)

lemma up8_step: "8 \<le> (n::nat) \<Longrightarrow> 8 * ((n - 8 + 7) div 8) + 8 = 8 * ((n + 7) div 8)"
proof -
  assume "8 \<le> n"
  then obtain m where n: "n = m + 8" by (metis le_add_diff_inverse2)
  have "(m + 8 + 7) div 8 = (m + 7) div 8 + 1" by simp
  then show ?thesis by (simp add: n)
qed

lemma up8_tail: "0 < (n::nat) \<Longrightarrow> \<not> 8 \<le> n \<Longrightarrow> 8 * ((n + 7) div 8) = 8"
  by simp

lemma Flash_Write_chunks_ok:
  "faults hw = [] \<Longrightarrow> n \<le> length p \<Longrightarrow> 8 * ((n + 7) div 8) < 2 ^ 32 \<Longrightarrow>
   (\<And>j. j < 8 * ((n + 7) div 8) \<Longrightarrow> mem hw (addr + of_nat j) = 0xFF) \<Longrightarrow>
     fst (Flash_Write_chunks hw addr p n) = HAL_OK \<and>
     faults (snd (Flash_Write_chunks hw addr p n)) = [] \<and>
     (\<forall>x. (\<forall>j<8 * ((n + 7) div 8). x \<noteq> addr + of_nat j) \<longrightarrow>
          mem (snd (Flash_Write_chunks hw addr p n)) x = mem hw x)"
proof (induction n arbitrary: hw addr p rule: less_induct)
  case (less n)
  show ?case
  proof (cases "8 \<le> n")
    case True
    define dw where "dw = take 8 p"
    define hw1 where
      "hw1 = hw\<lparr>ops := OpProgram addr dw # ops hw, mem := nor_store (mem hw) addr dw\<rparr>"
    have len: "length dw = 8" using True less.prems(2) by (simp add: dw_def)
    have prog: "HAL_FLASH_Program hw addr dw = (HAL_OK, hw1)"
      using less.prems(1) by (simp add: HAL_FLASH_Program_ok hw1_def)
    have up: "8 * ((n - 8 + 7) div 8) + 8 = 8 * ((n + 7) div 8)"
      using True by (rule up8_step)
    have rb: "load_bytes (mem hw1) addr 8 = dw"
      unfolding hw1_def using len up less.prems(4)
      by (simp add: load_bytes_nor_store_erased)
    have step: "Flash_Write_chunks hw addr p n =
                Flash_Write_chunks hw1 (addr + 8) (drop 8 p) (n - 8)"
      by (subst Flash_Write_chunks.simps) (simp add: True prog rb flip: dw_def)
    have other: "mem hw1 x = mem hw x" if "\<And>i. i < 8 \<Longrightarrow> addr + of_nat i \<noteq> x" for x
      unfolding hw1_def using that len by (simp add: nor_store_other)
    have erased1: "mem hw1 (addr + 8 + of_nat j) = 0xFF" if j: "j < 8 * ((n - 8 + 7) div 8)" for j
    proof -
      have eq: "addr + 8 + of_nat j = addr + of_nat (8 + j)" by (simp add: add.assoc)
      have "mem hw1 (addr + of_nat (8 + j)) = mem hw (addr + of_nat (8 + j))"
      proof (rule other)
        fix i :: nat assume "i < 8"
        then show "addr + of_nat i \<noteq> addr + of_nat (8 + j)"
          using addr_off_inj[of i "8 + j" addr] j up less.prems(3) by simp
      qed
      also have "\<dots> = 0xFF" using less.prems(4)[of "8 + j"] j up by simp
      finally show ?thesis by (simp only: eq)
    qed
    have IH: "fst (Flash_Write_chunks hw1 (addr + 8) (drop 8 p) (n - 8)) = HAL_OK \<and>
       faults (snd (Flash_Write_chunks hw1 (addr + 8) (drop 8 p) (n - 8))) = [] \<and>
       (\<forall>x. (\<forall>j<8 * ((n - 8 + 7) div 8). x \<noteq> addr + 8 + of_nat j) \<longrightarrow>
          mem (snd (Flash_Write_chunks hw1 (addr + 8) (drop 8 p) (n - 8))) x = mem hw1 x)"
    proof (rule less.IH)
      show "n - 8 < n" using True by simp
      show "faults hw1 = []" using less.prems(1) by (simp add: hw1_def)
      show "n - 8 \<le> length (drop 8 p)" using less.prems(2) by simp
      show "8 * ((n - 8 + 7) div 8) < 2 ^ 32" using up less.prems(3) by simp
      show "\<And>j. j < 8 * ((n - 8 + 7) div 8) \<Longrightarrow> mem hw1 (addr + 8 + of_nat j) = 0xFF"
        by (rule erased1)
    qed
    have out: "mem (snd (Flash_Write_chunks hw1 (addr + 8) (drop 8 p) (n - 8))) x = mem hw x"
      if x: "\<forall>j<8 * ((n + 7) div 8). x \<noteq> addr + of_nat j" for x
    proof -
      have a: "\<forall>j<8 * ((n - 8 + 7) div 8). x \<noteq> addr + 8 + of_nat j"
      proof (intro allI impI)
        fix j assume "j < 8 * ((n - 8 + 7) div 8)"
        then have "8 + j < 8 * ((n + 7) div 8)" using up by simp
        then have "x \<noteq> addr + of_nat (8 + j)" using x by blast
        then show "x \<noteq> addr + 8 + of_nat j" by (simp add: add.assoc)
      qed
      have b: "mem hw1 x = mem hw x"
      proof (rule other)
        fix i :: nat assume "i < 8"
        then have "i < 8 * ((n + 7) div 8)" using up by simp
        then show "addr + of_nat i \<noteq> x" using x by blast
      qed
      from IH a b show ?thesis by simp
    qed
    show ?thesis unfolding step using IH out by blast
  next
    case False
    show ?thesis
    proof (cases "0 < n")
      case True
      define dw where "dw = memcpy (replicate 8 0xFF) p n"
      define hw1 where
        "hw1 = hw\<lparr>ops := OpProgram addr dw # ops hw, mem := nor_store (mem hw) addr dw\<rparr>"
      have up: "8 * ((n + 7) div 8) = 8" using True False by (rule up8_tail)
      have len: "length dw = 8" using False less.prems(2) by (simp add: dw_def memcpy_def)
      have prog: "HAL_FLASH_Program hw addr dw = (HAL_OK, hw1)"
        using less.prems(1) by (simp add: HAL_FLASH_Program_ok hw1_def)
      have rb: "load_bytes (mem hw1) addr 8 = dw"
        unfolding hw1_def using len up less.prems(4)
        by (simp add: load_bytes_nor_store_erased)
      have res: "Flash_Write_chunks hw addr p n = (HAL_OK, HAL_FLASH_Lock hw1)"
        by (subst Flash_Write_chunks.simps) (simp add: True False prog rb flip: dw_def)
      have other: "mem hw1 x = mem hw x" if "\<forall>j<8. x \<noteq> addr + of_nat j" for x
      proof -
        have "nor_store (mem hw) addr dw x = mem hw x"
          by (rule nor_store_other) (use that len in auto)
        then show ?thesis by (simp add: hw1_def)
      qed
      show ?thesis unfolding res using less.prems(1) other
        by (simp add: up HAL_FLASH_Lock_def hw1_def)
    next
      case n0: False
      then have "Flash_Write_chunks hw addr p n = (HAL_OK, HAL_FLASH_Lock hw)"
        by (subst Flash_Write_chunks.simps) simp
      then show ?thesis using less.prems(1) by (simp add: HAL_FLASH_Lock_def)
    qed
  qed
qed

section \<open>Facts about the store\<close>

lemma writeback_seq: "seq (g_cfg (snd (lifu_cfg_writeback s))) = seq (g_cfg s) + 1"
  by (simp add: lifu_cfg_writeback_def Let_def normalize_fields split: prod.splits)

lemma writeback_fields:
  "magic (g_cfg (snd (lifu_cfg_writeback s))) = magic (g_cfg s)"
  "version (g_cfg (snd (lifu_cfg_writeback s))) = version (g_cfg s)"
  "reserved (g_cfg (snd (lifu_cfg_writeback s))) = reserved (g_cfg s)"
  "hv_settng (g_cfg (snd (lifu_cfg_writeback s))) = hv_settng (g_cfg s)"
  "hv_enabled (g_cfg (snd (lifu_cfg_writeback s))) = hv_enabled (g_cfg s)"
  "auto_on (g_cfg (snd (lifu_cfg_writeback s))) = auto_on (g_cfg s)"
  "g_cfg_loaded (snd (lifu_cfg_writeback s)) = g_cfg_loaded s"
  by (simp_all add: lifu_cfg_writeback_def Let_def normalize_fields split: prod.splits)

lemma writeback_json:
  "json (g_cfg (snd (lifu_cfg_writeback s))) = json (lifu_cfg_normalize_json (g_cfg s))"
  by (simp add: lifu_cfg_writeback_def Let_def normalize_json_only split: prod.splits)

lemma writeback_crc:
  "crc (g_cfg (snd (lifu_cfg_writeback s))) = lifu_cfg_calc_crc (g_cfg (snd (lifu_cfg_writeback s)))"
  by (simp add: lifu_cfg_writeback_def Let_def normalize_fields calc_crc_header split: prod.splits)

lemma writeback_wf: "wf_cfg (g_cfg s) \<Longrightarrow> wf_cfg (g_cfg (snd (lifu_cfg_writeback s)))"
  using normalize_length[of "g_cfg s"] by (simp add: wf_cfg_def writeback_json)

lemma writeback_valid:
  assumes "wf_cfg (g_cfg s)" "magic (g_cfg s) = LIFU_MAGIC" "version (g_cfg s) = LIFU_VER"
  shows "lifu_cfg_is_valid (g_cfg (snd (lifu_cfg_writeback s)))"
proof -
  have "json (g_cfg (snd (lifu_cfg_writeback s))) ! (LIFU_CFG_JSON_MAX - 1) = 0"
    using normalize_last[OF assms(1)] by (simp only: writeback_json)
  moreover have "length (json (g_cfg (snd (lifu_cfg_writeback s)))) = LIFU_CFG_JSON_MAX"
    using writeback_wf[OF assms(1)] by (simp add: wf_cfg_def)
  ultimately have "memchr_found (json (g_cfg (snd (lifu_cfg_writeback s)))) 0 LIFU_CFG_JSON_MAX"
    unfolding memchr_found_iff by (intro exI[of _ "LIFU_CFG_JSON_MAX - 1"]) (simp add: JSON_MAX_val)
  then show ?thesis
    using assms(2,3) writeback_crc[of s] by (simp add: lifu_cfg_is_valid_def writeback_fields)
qed

lemma cfg_words_val: "cfg_words = 512" "unat cfg_words = 512"
  by (simp_all add: cfg_words_def LIFU_CFG_PAGE_SIZE_def)

lemma unat_page_off:
  assumes "j < 2048"
  shows "unat (LIFU_CFG_PAGE_ADDR + of_nat j) = 0x0803F800 + j"
proof -
  have j: "unat (of_nat j :: uint32_t) = j" using assms by (simp add: unat_of_nat)
  have "unat (LIFU_CFG_PAGE_ADDR + of_nat j) = unat LIFU_CFG_PAGE_ADDR + unat (of_nat j :: uint32_t)"
    using assms j by (subst unat_add_lem[symmetric]) (simp add: LIFU_CFG_PAGE_ADDR_def)
  then show ?thesis using j by (simp add: LIFU_CFG_PAGE_ADDR_def)
qed

lemma page_off_erased:
  assumes "j < 2048"
  shows "in_erased_pages FLASH_BANK_1 127 1 (LIFU_CFG_PAGE_ADDR + of_nat j)"
  unfolding in_erased_cfg_page word_le_nat_alt word_less_nat_alt unat_page_off[OF assms]
  using assms by (simp add: LIFU_CFG_PAGE_ADDR_def LIFU_CFG_PAGE_END_def)

lemma page_addr_aligned: "LIFU_CFG_PAGE_ADDR AND 0x7 = 0"
  by (simp add: LIFU_CFG_PAGE_ADDR_def)

lemma Flash_Write_cfg_ok:
  assumes "faults hw = []" "512 \<le> length src"
    and "\<And>j. j < 512 \<Longrightarrow> mem hw (LIFU_CFG_PAGE_ADDR + of_nat j) = 0xFF"
  shows "fst (Flash_Write hw LIFU_CFG_PAGE_ADDR src cfg_words) = HAL_OK"
    and "faults (snd (Flash_Write hw LIFU_CFG_PAGE_ADDR src cfg_words)) = []"
    and "(\<And>j. j < 512 \<Longrightarrow> x \<noteq> LIFU_CFG_PAGE_ADDR + of_nat j) \<Longrightarrow>
          mem (snd (Flash_Write hw LIFU_CFG_PAGE_ADDR src cfg_words)) x = mem hw x"
proof -
  define hw1 where "hw1 = hw\<lparr>locked := False\<rparr>"
  have w: "Flash_Write hw LIFU_CFG_PAGE_ADDR src cfg_words =
           Flash_Write_chunks hw1 LIFU_CFG_PAGE_ADDR src 512"
    using assms(1)
    by (simp add: Flash_Write_def cfg_words_val page_addr_aligned HAL_FLASH_Unlock_def
        hal_result_def Flash_ClearErrors_def hw1_def)
  have up: "8 * ((512 + 7) div 8) = (512::nat)" by simp
  have c: "fst (Flash_Write_chunks hw1 LIFU_CFG_PAGE_ADDR src 512) = HAL_OK \<and>
     faults (snd (Flash_Write_chunks hw1 LIFU_CFG_PAGE_ADDR src 512)) = [] \<and>
     (\<forall>x. (\<forall>j<8 * ((512 + 7) div 8). x \<noteq> LIFU_CFG_PAGE_ADDR + of_nat j) \<longrightarrow>
          mem (snd (Flash_Write_chunks hw1 LIFU_CFG_PAGE_ADDR src 512)) x = mem hw1 x)"
  proof (rule Flash_Write_chunks_ok)
    show "faults hw1 = []" using assms(1) by (simp add: hw1_def)
    show "512 \<le> length src" by (rule assms(2))
    show "8 * ((512 + 7) div 8) < (2::nat) ^ 32" by simp
    show "\<And>j. j < 8 * ((512 + 7) div 8) \<Longrightarrow> mem hw1 (LIFU_CFG_PAGE_ADDR + of_nat j) = 0xFF"
      using assms(3) by (simp add: hw1_def)
  qed
  show "fst (Flash_Write hw LIFU_CFG_PAGE_ADDR src cfg_words) = HAL_OK"
    using c w by simp
  show "faults (snd (Flash_Write hw LIFU_CFG_PAGE_ADDR src cfg_words)) = []"
    using c w by simp
  show "mem (snd (Flash_Write hw LIFU_CFG_PAGE_ADDR src cfg_words)) x = mem hw x"
    if "\<And>j. j < 512 \<Longrightarrow> x \<noteq> LIFU_CFG_PAGE_ADDR + of_nat j"
    using c w that by (simp add: hw1_def)
qed

lemma writeback_flash_ok:
  assumes "faults (flash s) = []" "wf_cfg (g_cfg s)"
  shows "fst (lifu_cfg_writeback s) = HAL_OK"
    and "faults (flash (snd (lifu_cfg_writeback s))) = []"
    and "512 \<le> i \<Longrightarrow> i < 2048 \<Longrightarrow>
          mem (flash (snd (lifu_cfg_writeback s))) (LIFU_CFG_PAGE_ADDR + of_nat i) = 0xFF"
proof -
  define c3 where "c3 = g_cfg (snd (lifu_cfg_writeback s))"
  define hw1 where "hw1 = (flash s)\<lparr>locked := True, ops := OpErase FLASH_BANK_1 127 1 # ops (flash s),
        mem := (\<lambda>a. if in_erased_pages FLASH_BANK_1 127 1 a then 0xFF else mem (flash s) a)\<rparr>"
  have er: "Flash_Erase (flash s) LIFU_CFG_PAGE_ADDR LIFU_CFG_PAGE_END = (HAL_OK, hw1)"
    unfolding hw1_def by (rule Flash_Erase_ok[OF assms(1)])
  have wb: "lifu_cfg_writeback s =
     (fst (Flash_Write hw1 LIFU_CFG_PAGE_ADDR (cfg_bytes c3) cfg_words),
      s\<lparr>g_cfg := c3, flash := snd (Flash_Write hw1 LIFU_CFG_PAGE_ADDR (cfg_bytes c3) cfg_words)\<rparr>)"
    unfolding c3_def
    by (simp add: lifu_cfg_writeback_def Let_def er split: prod.splits)
  have len: "512 \<le> length (cfg_bytes c3)"
    using writeback_wf[OF assms(2)] by (simp add: length_cfg_bytes c3_def wf_cfg_def JSON_MAX_val)
  have f1: "faults hw1 = []" using assms(1) by (simp add: hw1_def)
  have e1: "mem hw1 (LIFU_CFG_PAGE_ADDR + of_nat j) = 0xFF" if "j < 2048" for j
    using page_off_erased[OF that] by (simp add: hw1_def)
  have e512: "\<And>j. j < 512 \<Longrightarrow> mem hw1 (LIFU_CFG_PAGE_ADDR + of_nat j) = 0xFF"
    using e1 by simp
  show "fst (lifu_cfg_writeback s) = HAL_OK"
    using Flash_Write_cfg_ok(1)[OF f1 len e512] by (simp add: wb)
  show "faults (flash (snd (lifu_cfg_writeback s))) = []"
    using Flash_Write_cfg_ok(2)[OF f1 len e512] by (simp add: wb)
  show "mem (flash (snd (lifu_cfg_writeback s))) (LIFU_CFG_PAGE_ADDR + of_nat i) = 0xFF"
    if i: "512 \<le> i" "i < 2048"
  proof -
    have ne: "LIFU_CFG_PAGE_ADDR + of_nat i \<noteq> LIFU_CFG_PAGE_ADDR + of_nat j" if "j < 512" for j
      using addr_off_inj[of i j LIFU_CFG_PAGE_ADDR] i that by simp
    have "mem (snd (Flash_Write hw1 LIFU_CFG_PAGE_ADDR (cfg_bytes c3) cfg_words))
            (LIFU_CFG_PAGE_ADDR + of_nat i) = mem hw1 (LIFU_CFG_PAGE_ADDR + of_nat i)"
      by (rule Flash_Write_cfg_ok(3)[OF f1 len e512]) (use ne in blast)+
    then show ?thesis using e1[OF i(2)] by (simp add: wb)
  qed
qed

section \<open>Facts about the lazy load and the invariant\<close>

lemma load_raw_loaded: "g_cfg_loaded (lifu_cfg_load_raw s) = g_cfg_loaded s"
  by (simp add: lifu_cfg_load_raw_def Flash_Read_def)

lemma load_raw_flash:
  "faults (flash (lifu_cfg_load_raw s)) = faults (flash s)"
  "mem (flash (lifu_cfg_load_raw s)) = mem (flash s)"
  by (simp_all add: lifu_cfg_load_raw_def Flash_Read_def)

lemma load_raw_wf:
  assumes "wf_cfg (g_cfg s)"
  shows "wf_cfg (g_cfg (lifu_cfg_load_raw s))"
  using assms
  by (simp add: lifu_cfg_load_raw_def Flash_Read_def cfg_of_bytes_def wf_cfg_def memcpy_def
      load_bytes_def length_cfg_bytes cfg_words_val JSON_MAX_val)

lemma make_defaults_wf: "wf_cfg (lifu_cfg_make_defaults d)"
  by (simp add: make_defaults_eq wf_cfg_def)

lemma ensure_loaded_flag: "g_cfg_loaded (lifu_cfg_ensure_loaded s)"
  by (simp add: lifu_cfg_ensure_loaded_def Let_def)

lemma ensure_loaded_id: "g_cfg_loaded s \<Longrightarrow> lifu_cfg_ensure_loaded s = s"
  by (simp add: lifu_cfg_ensure_loaded_def)

lemma ensure_loaded_wf:
  assumes "wf_cfg (g_cfg s)"
  shows "wf_cfg (g_cfg (lifu_cfg_ensure_loaded s))"
  using load_raw_wf[OF assms]
  by (simp add: lifu_cfg_ensure_loaded_def Let_def assms writeback_wf make_defaults_wf)

lemma defaults_writeback_valid:
  "lifu_cfg_is_valid (g_cfg (snd (lifu_cfg_writeback (s\<lparr>g_cfg := lifu_cfg_make_defaults d\<rparr>))))"
  by (rule writeback_valid) (simp_all add: make_defaults_wf, simp_all add: make_defaults_eq)

lemma ensure_loaded_valid:
  assumes "store_inv s"
  shows "lifu_cfg_is_valid (g_cfg (lifu_cfg_ensure_loaded s))"
  using assms
  by (simp add: lifu_cfg_ensure_loaded_def Let_def store_inv_def defaults_writeback_valid)

lemma ensure_loaded_inv:
  assumes "store_inv s"
  shows "store_inv (lifu_cfg_ensure_loaded s)"
  using assms ensure_loaded_valid[OF assms] ensure_loaded_wf[of s]
  by (simp add: store_inv_def)

lemma ensure_loaded_faults:
  assumes "faults (flash s) = []" "wf_cfg (g_cfg s)"
  shows "faults (flash (lifu_cfg_ensure_loaded s)) = []"
  using assms
  by (simp add: lifu_cfg_ensure_loaded_def Let_def load_raw_flash writeback_flash_ok(2)
      make_defaults_wf)

lemma save_wf_pre:
  assumes "wf_cfg c" "wf_cfg n"
  shows "wf_cfg (c\<lparr>magic := m, version := v, hv_settng := a, hv_enabled := b, auto_on := d,
                   json := (memcpy (json c) (json n) LIFU_CFG_JSON_MAX)[LIFU_CFG_JSON_MAX - 1 := 0]\<rparr>)"
  using assms by (simp add: wf_cfg_def memcpy_def)

lemma save_valid:
  assumes "store_inv s" "wf_cfg c"
  shows "lifu_cfg_is_valid (g_cfg (snd (lifu_cfg_save c s)))"
    and "wf_cfg (g_cfg (snd (lifu_cfg_save c s)))"
    and "g_cfg_loaded (snd (lifu_cfg_save c s))"
proof -
  have wf: "wf_cfg (g_cfg (lifu_cfg_ensure_loaded s))"
    using assms(1) by (simp add: ensure_loaded_wf store_inv_def)
  show "lifu_cfg_is_valid (g_cfg (snd (lifu_cfg_save c s)))"
    unfolding lifu_cfg_save_def Let_def
    by (rule writeback_valid) (use wf assms(2) in \<open>simp_all add: wf_cfg_def memcpy_def\<close>)
  show "wf_cfg (g_cfg (snd (lifu_cfg_save c s)))"
    unfolding lifu_cfg_save_def Let_def
    by (rule writeback_wf) (use wf assms(2) in \<open>simp_all add: wf_cfg_def memcpy_def\<close>)
  show "g_cfg_loaded (snd (lifu_cfg_save c s))"
    by (simp add: lifu_cfg_save_def Let_def writeback_fields ensure_loaded_flag)
qed

lemma commit_valid:
  assumes "store_inv s"
  shows "lifu_cfg_is_valid (g_cfg (snd (lifu_cfg_commit s)))"
    and "wf_cfg (g_cfg (snd (lifu_cfg_commit s)))"
    and "g_cfg_loaded (snd (lifu_cfg_commit s))"
proof -
  have wf: "wf_cfg (g_cfg (lifu_cfg_ensure_loaded s))"
    using assms(1) by (simp add: ensure_loaded_wf store_inv_def)
  have v: "lifu_cfg_is_valid (g_cfg (lifu_cfg_ensure_loaded s))"
    by (rule ensure_loaded_valid[OF assms])
  show "lifu_cfg_is_valid (g_cfg (snd (lifu_cfg_commit s)))"
    unfolding lifu_cfg_commit_def
    by (rule writeback_valid[OF wf]) (use v in \<open>simp_all add: is_valid_fields\<close>)
  show "wf_cfg (g_cfg (snd (lifu_cfg_commit s)))"
    unfolding lifu_cfg_commit_def by (rule writeback_wf[OF wf])
  show "g_cfg_loaded (snd (lifu_cfg_commit s))"
    by (simp add: lifu_cfg_commit_def writeback_fields ensure_loaded_flag)
qed

lemma factory_reset_valid:
  shows "lifu_cfg_is_valid (g_cfg (snd (lifu_cfg_factory_reset s)))"
    and "wf_cfg (g_cfg (snd (lifu_cfg_factory_reset s)))"
    and "g_cfg_loaded (snd (lifu_cfg_factory_reset s))"
  by (simp_all add: lifu_cfg_factory_reset_def Let_def defaults_writeback_valid writeback_wf
      make_defaults_wf writeback_fields ensure_loaded_flag)

lemma run_op_inv:
  assumes "store_inv s" "wf_op x"
  shows "store_inv (run_op x s)"
proof (cases x)
  case Get
  then show ?thesis using ensure_loaded_inv[OF assms(1)] by (simp add: lifu_cfg_get_def Let_def)
next
  case (Snapshot out)
  then show ?thesis using ensure_loaded_inv[OF assms(1)] assms(1)
    by (simp add: lifu_cfg_snapshot_def Let_def split: option.splits)
next
  case (Save c)
  then show ?thesis using save_valid[OF assms(1), of c] assms(2) by (simp add: store_inv_def)
next
  case Commit
  then show ?thesis using commit_valid[OF assms(1)] by (simp add: store_inv_def)
next
  case FactoryReset
  then show ?thesis using factory_reset_valid[of s] by (simp add: store_inv_def)
qed

lemma run_op_valid:
  assumes "store_inv s" "wf_op x" "x \<noteq> Snapshot None"
  shows "lifu_cfg_is_valid (g_cfg (run_op x s))"
proof (cases x)
  case Get
  then show ?thesis using ensure_loaded_valid[OF assms(1)] by (simp add: lifu_cfg_get_def Let_def)
next
  case (Snapshot out)
  then show ?thesis using ensure_loaded_valid[OF assms(1)] assms(3)
    by (cases out) (simp_all add: lifu_cfg_snapshot_def Let_def)
next
  case (Save c)
  then show ?thesis using save_valid[OF assms(1), of c] assms(2) by simp
next
  case Commit
  then show ?thesis using commit_valid[OF assms(1)] by simp
next
  case FactoryReset
  then show ?thesis using factory_reset_valid[of s] by simp
qed

lemma power_on_inv: "store_inv (power_on hw)"
  by (simp add: store_inv_def power_on_def wf_cfg_def zero_cfg_def)

lemma run_ops_inv:
  "store_inv s \<Longrightarrow> list_all wf_op xs \<Longrightarrow> store_inv (run_ops xs s)"
  by (induction xs arbitrary: s) (simp_all add: run_op_inv)

section \<open>Facts about normalisation, save, commit and factory reset\<close>

lemma normalize_list:
  fixes j :: "uint8_t list"
  assumes len: "length j = Suc m"
  defines "n \<equiv> length (takeWhile (\<lambda>b. b \<noteq> 0) (take m j))"
  shows "(let j1 = j[m := 0]; used = strnlen j1 (Suc m)
          in if used < m then memset_at j1 (used + 1) 0 (m - used) else j1)
         = take n j @ replicate (Suc m - n) 0"
proof -
  define ys where "ys = take m j"
  have lys: "length ys = m" using len by (simp add: ys_def)
  have j1: "j[m := 0] = ys @ [0]"
    using len by (simp add: upd_conv_take_nth_drop ys_def)
  have used: "strnlen (ys @ [0]) (Suc m) = n"
    using lys by (simp add: strnlen_def n_def ys_def[symmetric] takeWhile_tail)
  have nm: "n \<le> m" unfolding n_def ys_def[symmetric] using lys length_takeWhile_le[of _ ys] by metis
  have tk: "take n j = take n ys" using nm by (simp add: ys_def min_def)
  show ?thesis
  proof (cases "n < m")
    case True
    have z: "ys ! n = 0"
      using nth_length_takeWhile[of "\<lambda>b. b \<noteq> 0" ys] True lys by (simp add: n_def ys_def)
    have "take (Suc n) ys = take n ys @ [0]"
      using True lys z by (simp add: take_Suc_conv_app_nth)
    then have "memset_at (ys @ [0]) (Suc n) 0 (m - n) = take n ys @ replicate (Suc m - n) 0"
      using True lys by (simp add: memset_at_def Suc_diff_le replicate_append_same)
    then show ?thesis using True by (simp add: j1 used tk Let_def)
  next
    case False
    then have "n = m" using nm by simp
    moreover have "take m j = ys" by (simp add: ys_def)
    ultimately show ?thesis by (simp add: j1 used Let_def)
  qed
qed

lemma normalize_json_eq:
  assumes "wf_cfg cfg"
  shows "json (lifu_cfg_normalize_json cfg) =
           take (strnlen (json cfg) (LIFU_CFG_JSON_MAX - 1)) (json cfg) @
           replicate (LIFU_CFG_JSON_MAX - strnlen (json cfg) (LIFU_CFG_JSON_MAX - 1)) 0"
proof -
  have len: "length (json cfg) = Suc (LIFU_CFG_JSON_MAX - 1)"
    using assms by (simp add: wf_cfg_def JSON_MAX_val)
  have S: "Suc (LIFU_CFG_JSON_MAX - 1) = LIFU_CFG_JSON_MAX" by (simp add: JSON_MAX_val)
  have "json (lifu_cfg_normalize_json cfg) =
        (let j1 = (json cfg)[LIFU_CFG_JSON_MAX - 1 := 0]; used = strnlen j1 (Suc (LIFU_CFG_JSON_MAX - 1))
          in if used < LIFU_CFG_JSON_MAX - 1 then memset_at j1 (used + 1) 0 (LIFU_CFG_JSON_MAX - 1 - used) else j1)"
    unfolding S by (simp add: lifu_cfg_normalize_json_def Let_def)
  also have "\<dots> = take (length (takeWhile (\<lambda>b. b \<noteq> 0) (take (LIFU_CFG_JSON_MAX - 1) (json cfg)))) (json cfg) @
      replicate (Suc (LIFU_CFG_JSON_MAX - 1) - length (takeWhile (\<lambda>b. b \<noteq> 0) (take (LIFU_CFG_JSON_MAX - 1) (json cfg)))) 0"
    by (rule normalize_list[OF len])
  finally show ?thesis unfolding S by (simp add: strnlen_def)
qed

lemma strnlen_update_last: "strnlen (xs[m := v]) m = strnlen xs m"
  by (simp add: strnlen_def)

lemma save_json:
  assumes "wf_cfg (g_cfg s)" "wf_cfg cand"
  shows "json (g_cfg (snd (lifu_cfg_save cand s))) =
           take (strnlen (json cand) (LIFU_CFG_JSON_MAX - 1)) (json cand) @
           replicate (LIFU_CFG_JSON_MAX - strnlen (json cand) (LIFU_CFG_JSON_MAX - 1)) 0"
proof -
  define c4 where "c4 = (g_cfg (lifu_cfg_ensure_loaded s))\<lparr>magic := LIFU_MAGIC, version := LIFU_VER,
     hv_settng := hv_settng cand, hv_enabled := hv_enabled cand, auto_on := auto_on cand,
     json := (json cand)[LIFU_CFG_JSON_MAX - 1 := 0]\<rparr>"
  have wf: "wf_cfg (g_cfg (lifu_cfg_ensure_loaded s))" by (rule ensure_loaded_wf[OF assms(1)])
  have m: "memcpy (json (g_cfg (lifu_cfg_ensure_loaded s))) (json cand) LIFU_CFG_JSON_MAX = json cand"
    using wf assms(2) by (simp add: memcpy_def wf_cfg_def)
  have sv: "lifu_cfg_save cand s = lifu_cfg_writeback ((lifu_cfg_ensure_loaded s)\<lparr>g_cfg := c4\<rparr>)"
    by (simp add: lifu_cfg_save_def Let_def c4_def m)
  have wf4: "wf_cfg c4" using assms(2) by (simp add: c4_def wf_cfg_def)
  have le: "strnlen (json cand) (LIFU_CFG_JSON_MAX - 1) \<le> LIFU_CFG_JSON_MAX - 1"
    using strnlen_le[of "json cand" "LIFU_CFG_JSON_MAX - 1"] by simp
  have "json (g_cfg (snd (lifu_cfg_save cand s))) = json (lifu_cfg_normalize_json c4)"
    by (simp add: sv writeback_json)
  also have "\<dots> = take (strnlen (json c4) (LIFU_CFG_JSON_MAX - 1)) (json c4) @
           replicate (LIFU_CFG_JSON_MAX - strnlen (json c4) (LIFU_CFG_JSON_MAX - 1)) 0"
    by (rule normalize_json_eq[OF wf4])
  also have "\<dots> = take (strnlen (json cand) (LIFU_CFG_JSON_MAX - 1)) (json cand) @
           replicate (LIFU_CFG_JSON_MAX - strnlen (json cand) (LIFU_CFG_JSON_MAX - 1)) 0"
    using le by (simp add: c4_def strnlen_update_last)
  finally show ?thesis .
qed

lemma save_fields:
  "magic (g_cfg (snd (lifu_cfg_save cand s))) = LIFU_MAGIC"
  "version (g_cfg (snd (lifu_cfg_save cand s))) = LIFU_VER"
  "seq (g_cfg (snd (lifu_cfg_save cand s))) = seq (g_cfg (lifu_cfg_ensure_loaded s)) + 1"
  "hv_settng (g_cfg (snd (lifu_cfg_save cand s))) = hv_settng cand"
  "hv_enabled (g_cfg (snd (lifu_cfg_save cand s))) = hv_enabled cand"
  "auto_on (g_cfg (snd (lifu_cfg_save cand s))) = auto_on cand"
  "crc (g_cfg (snd (lifu_cfg_save cand s))) = lifu_cfg_calc_crc (g_cfg (snd (lifu_cfg_save cand s)))"
  by (simp_all add: lifu_cfg_save_def Let_def writeback_fields writeback_seq writeback_crc)

lemma save_ok:
  assumes "faults (flash s) = []" "wf_cfg (g_cfg s)" "wf_cfg cand"
  shows "fst (lifu_cfg_save cand s) = HAL_OK"
    and "faults (flash (snd (lifu_cfg_save cand s))) = []"
proof -
  have wf: "wf_cfg (g_cfg (lifu_cfg_ensure_loaded s))" by (rule ensure_loaded_wf[OF assms(2)])
  have f: "faults (flash (lifu_cfg_ensure_loaded s)) = []" by (rule ensure_loaded_faults[OF assms(1,2)])
  show "fst (lifu_cfg_save cand s) = HAL_OK"
    unfolding lifu_cfg_save_def Let_def
    by (rule writeback_flash_ok(1)) (use wf f assms(3) in \<open>simp_all add: wf_cfg_def memcpy_def\<close>)
  show "faults (flash (snd (lifu_cfg_save cand s))) = []"
    unfolding lifu_cfg_save_def Let_def
    by (rule writeback_flash_ok(2)) (use wf f assms(3) in \<open>simp_all add: wf_cfg_def memcpy_def\<close>)
qed

lemma commit_ok:
  assumes "faults (flash s) = []" "wf_cfg (g_cfg s)"
  shows "fst (lifu_cfg_commit s) = HAL_OK"
    and "faults (flash (snd (lifu_cfg_commit s))) = []"
  unfolding lifu_cfg_commit_def
  by (rule writeback_flash_ok[OF ensure_loaded_faults[OF assms] ensure_loaded_wf[OF assms(2)]])+

lemma factory_reset_ok:
  assumes "faults (flash s) = []" "wf_cfg (g_cfg s)"
  shows "fst (lifu_cfg_factory_reset s) = HAL_OK"
    and "faults (flash (snd (lifu_cfg_factory_reset s))) = []"
  unfolding lifu_cfg_factory_reset_def Let_def
  using ensure_loaded_faults[OF assms]
  by (simp_all add: writeback_flash_ok make_defaults_wf)

lemma commit_seq:
  "seq (g_cfg (snd (lifu_cfg_commit s))) = seq (g_cfg (lifu_cfg_ensure_loaded s)) + 1"
  by (simp add: lifu_cfg_commit_def writeback_seq)

lemma factory_reset_seq: "seq (g_cfg (snd (lifu_cfg_factory_reset s))) = 1"
  by (simp add: lifu_cfg_factory_reset_def Let_def writeback_seq make_defaults_eq)

section \<open>Facts about the first access\<close>

lemma blank_flash_fields:
  "faults blank_flash = []" "mem blank_flash = (\<lambda>a. 0xFF)"
  by (simp_all add: blank_flash_def)

lemma power_on_fields:
  "g_cfg (power_on hw) = zero_cfg" "g_cfg_loaded (power_on hw) = False" "flash (power_on hw) = hw"
  by (simp_all add: power_on_def)

lemma zero_cfg_wf: "wf_cfg zero_cfg"
  by (simp add: wf_cfg_def zero_cfg_def)

lemma blank_load_magic: "magic (g_cfg (lifu_cfg_load_raw (power_on blank_flash))) = 0xFFFFFFFF"
  by (simp add: lifu_cfg_load_raw_def Flash_Read_def power_on_fields blank_flash_fields
      cfg_of_bytes_def memcpy_def load_bytes_def cfg_words_val rd32_def nth_append)

lemma blank_load_invalid:
  "\<not> lifu_cfg_is_valid (g_cfg (lifu_cfg_load_raw (power_on blank_flash)))"
  by (simp add: lifu_cfg_is_valid_def blank_load_magic LIFU_MAGIC_def)

lemma ensure_loaded_regenerates:
  assumes "\<not> g_cfg_loaded s" "\<not> lifu_cfg_is_valid (g_cfg (lifu_cfg_load_raw s))"
  shows "g_cfg (lifu_cfg_ensure_loaded s) =
     \<lparr>magic = LIFU_MAGIC, version = LIFU_VER, seq = 1,
      crc = crc16_ccitt (le32 LIFU_MAGIC @ le32 LIFU_VER @ le32 1) 12, reserved = 0,
      json = replicate LIFU_CFG_JSON_MAX 0,
      hv_settng = 0, hv_enabled = 0, auto_on = 0\<rparr>"
proof -
  define s1 where "s1 = (lifu_cfg_load_raw s)\<lparr>g_cfg := lifu_cfg_make_defaults (g_cfg (lifu_cfg_load_raw s))\<rparr>"
  have e: "g_cfg (lifu_cfg_ensure_loaded s) = g_cfg (snd (lifu_cfg_writeback s1))"
    using assms by (simp add: lifu_cfg_ensure_loaded_def Let_def s1_def)
  have g: "g_cfg s1 = lifu_cfg_make_defaults (g_cfg (lifu_cfg_load_raw s))" by (simp add: s1_def)
  have j: "json (g_cfg (snd (lifu_cfg_writeback s1))) = replicate LIFU_CFG_JSON_MAX 0"
    by (simp add: writeback_json g normalize_zero_json make_defaults_eq)
  have c: "crc (g_cfg (snd (lifu_cfg_writeback s1))) = crc16_ccitt (le32 LIFU_MAGIC @ le32 LIFU_VER @ le32 1) 12"
    by (simp add: writeback_crc calc_crc_header writeback_fields writeback_seq g make_defaults_eq)
  show ?thesis
    unfolding e
    by (rule lifu_cfg_t.equality)
      (simp_all add: writeback_fields writeback_seq j c g make_defaults_eq)
qed

lemma calc_crc_json: "lifu_cfg_calc_crc (c\<lparr>json := j\<rparr>) = lifu_cfg_calc_crc c"
  by (simp add: calc_crc_header)

lemma valid_json_change:
  assumes "lifu_cfg_is_valid c" "memchr_found j 0 LIFU_CFG_JSON_MAX"
  shows "lifu_cfg_is_valid (c\<lparr>json := j\<rparr>)"
  using assms by (simp add: lifu_cfg_is_valid_def calc_crc_json split: if_splits)

lemma factory_reset_json:
  "json (g_cfg (snd (lifu_cfg_factory_reset s))) = replicate LIFU_CFG_JSON_MAX 0"
  by (simp add: lifu_cfg_factory_reset_def Let_def writeback_json normalize_zero_json make_defaults_eq)

lemma word32_less_succ:
  fixes x :: uint32_t
  assumes "x \<noteq> 0xFFFFFFFF"
  shows "x < x + 1"
proof -
  have "(0xFFFFFFFF :: uint32_t) = - 1" by simp
  with assms have "x \<noteq> - 1" by metis
  then have "1 + x \<noteq> 0" using max_word_wrap[of x] by (auto simp: add.commute)
  then have "unat (1 + x) = Suc (unat x)" by (rule unatSuc)
  then show ?thesis by (simp add: word_less_nat_alt add.commute)
qed

section \<open>Facts about loading a record held in flash\<close>

lemma rd32_le32: "rd32 (le32 w) = w"
proof (rule bit_word_eqI)
  fix n assume n: "n < LENGTH(32)"
  consider "n < 8" | "8 \<le> n" "n < 16" | "16 \<le> n" "n < 24" | "24 \<le> n" "n < 32"
    using n by fastforce
  then show "bit (rd32 (le32 w)) n = bit w n"
  proof cases
    case 1 then show ?thesis by (simp add: rd32_def le32_def bit_simps)
  next
    case 2 then show ?thesis by (auto simp: rd32_def le32_def bit_simps)
  next
    case 3 then show ?thesis by (auto simp: rd32_def le32_def bit_simps)
  next
    case 4 then show ?thesis by (auto simp: rd32_def le32_def bit_simps)
  qed
qed

lemma rd16_le16: "rd16 (le16 w) = w"
proof (rule bit_word_eqI)
  fix n assume n: "n < LENGTH(16)"
  consider "n < 8" | "8 \<le> n" "n < 16"
    using n by fastforce
  then show "bit (rd16 (le16 w)) n = bit w n"
  proof cases
    case 1 then show ?thesis by (simp add: rd16_def le16_def bit_simps)
  next
    case 2 then show ?thesis by (auto simp: rd16_def le16_def bit_simps)
  qed
qed


lemma length_le32: "length (le32 w) = 4" by (simp add: le32_def)
lemma length_le16: "length (le16 w) = 2" by (simp add: le16_def)

lemma cfg_of_bytes_image:
  "cfg_of_bytes (le32 m @ le32 v @ le32 q @ le16 c @ le16 r @ j) old =
     old\<lparr>magic := m, version := v, seq := q, crc := c, reserved := r,
         json := take LIFU_CFG_JSON_MAX j\<rparr>"
  by (simp add: cfg_of_bytes_def length_le32 length_le16 rd32_le32 rd16_le16)

lemma load_bytes_flash_holding:
  assumes "n \<le> length img" "n \<le> 2048"
  shows "load_bytes (mem (flash_holding img)) LIFU_CFG_PAGE_ADDR n = take n img"
proof (rule nth_equalityI)
  show "length (load_bytes (mem (flash_holding img)) LIFU_CFG_PAGE_ADDR n) = length (take n img)"
    using assms by (simp add: load_bytes_def)
next
  fix i assume "i < length (load_bytes (mem (flash_holding img)) LIFU_CFG_PAGE_ADDR n)"
  then have i: "i < n" by (simp add: load_bytes_def)
  then have i2: "i < 2048" using assms(2) by simp
  have r: "LIFU_CFG_PAGE_ADDR \<le> LIFU_CFG_PAGE_ADDR + of_nat i"
          "LIFU_CFG_PAGE_ADDR + of_nat i < LIFU_CFG_PAGE_END"
    using page_off_erased[OF i2] by (simp_all add: in_erased_cfg_page)
  have u: "unat (of_nat i :: uint32_t) = i" using i2 by (simp add: unat_of_nat)
  show "load_bytes (mem (flash_holding img)) LIFU_CFG_PAGE_ADDR n ! i = take n img ! i"
    using i assms(1) r u by (simp add: load_bytes_def flash_holding_def)
qed

lemma load_raw_image:
  assumes "load_bytes (mem hw) LIFU_CFG_PAGE_ADDR 512 = take 512 (cfg_bytes r)" "wf_cfg r"
  shows "g_cfg (lifu_cfg_load_raw (power_on hw)) =
     zero_cfg\<lparr>magic := magic r, version := version r, seq := seq r, crc := crc r,
              reserved := reserved r, json := take 496 (json r) @ replicate 1536 0\<rparr>"
proof -
  have z: "drop 512 (cfg_bytes zero_cfg) = replicate 1536 0"
    by (simp add: cfg_bytes_def zero_cfg_def length_le32 length_le16 JSON_MAX_val)
  have t: "take 512 (cfg_bytes r) =
       le32 (magic r) @ le32 (version r) @ le32 (seq r) @ le16 (crc r) @ le16 (reserved r) @ take 496 (json r)"
    by (simp add: cfg_bytes_def length_le32 length_le16)
  have b: "memcpy (cfg_bytes zero_cfg) (take 512 (cfg_bytes r)) 512 =
       le32 (magic r) @ le32 (version r) @ le32 (seq r) @ le16 (crc r) @ le16 (reserved r) @
       (take 496 (json r) @ replicate 1536 0)"
    unfolding memcpy_def z by (simp add: t length_le32 length_le16)
  show ?thesis
    using assms(2)
    by (simp add: lifu_cfg_load_raw_def Flash_Read_def power_on_fields cfg_words_val assms(1) b
        cfg_of_bytes_image wf_cfg_def JSON_MAX_val)
qed

lemma load_raw_flash_holding:
  assumes "wf_cfg r"
  shows "g_cfg (lifu_cfg_load_raw (power_on (flash_holding (cfg_bytes r)))) =
     zero_cfg\<lparr>magic := magic r, version := version r, seq := seq r, crc := crc r,
              reserved := reserved r, json := take 496 (json r) @ replicate 1536 0\<rparr>"
proof (rule load_raw_image[OF _ assms])
  show "load_bytes (mem (flash_holding (cfg_bytes r))) LIFU_CFG_PAGE_ADDR 512 = take 512 (cfg_bytes r)"
    using assms
    by (intro load_bytes_flash_holding) (simp_all add: length_cfg_bytes wf_cfg_def JSON_MAX_val)
qed

lemma last_seq_cfg_eq:
  "last_seq_cfg =
     \<lparr>magic = LIFU_MAGIC, version = LIFU_VER, seq = 0xFFFFFFFF,
      crc = crc16_ccitt (le32 LIFU_MAGIC @ le32 LIFU_VER @ le32 0xFFFFFFFF) 12, reserved = 0,
      json = replicate LIFU_CFG_JSON_MAX 0,
      hv_settng = 0, hv_enabled = 0, auto_on = 0\<rparr>"
  by (simp add: last_seq_cfg_def Let_def make_defaults_eq calc_crc_header)

lemma last_seq_cfg_valid: "lifu_cfg_is_valid last_seq_cfg" "wf_cfg last_seq_cfg"
  by (simp_all add: last_seq_cfg_eq lifu_cfg_is_valid_def calc_crc_header memchr_found_iff
      wf_cfg_def JSON_MAX_val, rule exI[of _ 0], simp)

lemma load_last_seq:
  "g_cfg (lifu_cfg_load_raw (power_on (flash_holding (cfg_bytes last_seq_cfg)))) = last_seq_cfg"
proof -
  have "take 496 (replicate LIFU_CFG_JSON_MAX (0::uint8_t)) @ replicate 1536 0 = replicate LIFU_CFG_JSON_MAX 0"
    by (simp add: JSON_MAX_val flip: replicate_add)
  then show ?thesis
    unfolding load_raw_flash_holding[OF last_seq_cfg_valid(2)]
    by (simp add: last_seq_cfg_eq zero_cfg_def)
qed

lemma ensure_loaded_last_seq:
  "g_cfg (lifu_cfg_ensure_loaded (power_on (flash_holding (cfg_bytes last_seq_cfg)))) = last_seq_cfg"
  by (simp add: lifu_cfg_ensure_loaded_def Let_def power_on_fields load_last_seq last_seq_cfg_valid)

lemma flash_holding_faults: "faults (flash_holding img) = []"
  by (simp add: flash_holding_def)

section \<open>Facts about what a write-back programs\<close>

lemma Flash_Write_chunks_step:
  assumes "faults hw = []" "8 \<le> n" "n \<le> length p"
    and "\<And>j. j < 8 \<Longrightarrow> mem hw (addr + of_nat j) = 0xFF"
  shows "Flash_Write_chunks hw addr p n =
         Flash_Write_chunks
           (hw\<lparr>ops := OpProgram addr (take 8 p) # ops hw,
               mem := nor_store (mem hw) addr (take 8 p)\<rparr>)
           (addr + 8) (drop 8 p) (n - 8)"
proof -
  have len: "length (take 8 p) = 8" using assms(2,3) by simp
  have rb: "load_bytes (nor_store (mem hw) addr (take 8 p)) addr 8 = take 8 p"
    using len assms(4) by (simp add: load_bytes_nor_store_erased)
  show ?thesis
    by (subst Flash_Write_chunks.simps)
      (simp add: assms(1,2) HAL_FLASH_Program_ok rb Let_def)
qed

lemma Flash_Write_chunks_data:
  "faults hw = [] \<Longrightarrow> n \<le> length p \<Longrightarrow> 8 * ((n + 7) div 8) < 2 ^ 32 \<Longrightarrow>
   (\<And>j. j < 8 * ((n + 7) div 8) \<Longrightarrow> mem hw (addr + of_nat j) = 0xFF) \<Longrightarrow>
   j < n \<Longrightarrow> mem (snd (Flash_Write_chunks hw addr p n)) (addr + of_nat j) = p ! j"
proof (induction n arbitrary: hw addr p j rule: less_induct)
  case (less n)
  show ?case
  proof (cases "8 \<le> n")
    case True
    define hw1 where
      "hw1 = hw\<lparr>ops := OpProgram addr (take 8 p) # ops hw,
                 mem := nor_store (mem hw) addr (take 8 p)\<rparr>"
    have up: "8 * ((n - 8 + 7) div 8) + 8 = 8 * ((n + 7) div 8)"
      using True by (rule up8_step)
    have len: "length (take 8 p) = 8" using True less.prems(2) by simp
    have step: "Flash_Write_chunks hw addr p n =
                Flash_Write_chunks hw1 (addr + 8) (drop 8 p) (n - 8)"
      unfolding hw1_def
      by (rule Flash_Write_chunks_step[OF less.prems(1) True less.prems(2)])
        (use less.prems(4) up in simp)
    have f1: "faults hw1 = []" using less.prems(1) by (simp add: hw1_def)
    have l1: "n - 8 \<le> length (drop 8 p)" using less.prems(2) by simp
    have b1: "8 * ((n - 8 + 7) div 8) < (2::nat) ^ 32" using up less.prems(3) by simp
    have e1: "mem hw1 (addr + 8 + of_nat k) = 0xFF" if k: "k < 8 * ((n - 8 + 7) div 8)" for k
    proof -
      have eq: "addr + 8 + of_nat k = addr + of_nat (8 + k)" by (simp add: add.assoc)
      have "nor_store (mem hw) addr (take 8 p) (addr + of_nat (8 + k)) = mem hw (addr + of_nat (8 + k))"
      proof (rule nor_store_other)
        fix i assume "i < length (take 8 p)"
        then have "i < 8" using len by simp
        then show "addr + of_nat i \<noteq> addr + of_nat (8 + k)"
          using addr_off_inj[of i "8 + k" addr] k up less.prems(3) by simp
      qed
      also have "\<dots> = 0xFF" using less.prems(4)[of "8 + k"] k up by simp
      finally show ?thesis by (simp add: hw1_def add.assoc)
    qed
    show ?thesis
    proof (cases "j < 8")
      case j8: True
      have out: "\<forall>k<8 * ((n - 8 + 7) div 8). addr + of_nat j \<noteq> addr + 8 + of_nat k"
      proof (intro allI impI)
        fix k assume k: "k < 8 * ((n - 8 + 7) div 8)"
        have "addr + of_nat j \<noteq> addr + of_nat (8 + k)"
          using addr_off_inj[of j "8 + k" addr] j8 k up less.prems(3) by simp
        then show "addr + of_nat j \<noteq> addr + 8 + of_nat k" by (simp add: add.assoc)
      qed
      have "mem (snd (Flash_Write_chunks hw1 (addr + 8) (drop 8 p) (n - 8))) (addr + of_nat j)
            = mem hw1 (addr + of_nat j)"
        using Flash_Write_chunks_ok[OF f1 l1 b1 e1] out by blast
      also have "\<dots> = mem hw (addr + of_nat j) AND take 8 p ! j"
        unfolding hw1_def using nor_store_at[of "take 8 p" j "mem hw" addr] len j8 by simp
      also have "\<dots> = p ! j"
        using less.prems(4)[of j] j8 up by (simp add: ff_and)
      finally show ?thesis by (simp only: step)
    next
      case False
      then have j': "j - 8 < n - 8" "j = 8 + (j - 8)" using less.prems(5) by simp_all
      have "mem (snd (Flash_Write_chunks hw1 (addr + 8) (drop 8 p) (n - 8)))
              (addr + 8 + of_nat (j - 8)) = drop 8 p ! (j - 8)"
        by (rule less.IH[OF _ f1 l1 b1 e1 j'(1)]) (use True in simp)
      moreover have "addr + 8 + of_nat (j - 8) = addr + of_nat j"
        using j'(2) by (metis add.assoc of_nat_add of_nat_numeral)
      moreover have "drop 8 p ! (j - 8) = p ! j"
        using j'(2) less.prems(2,5) by (metis add.commute nth_drop order_less_le_trans less_imp_le_nat le_trans True)
      ultimately show ?thesis by (simp only: step)
    qed
  next
    case False
    then have n: "0 < n" "n < 8" using less.prems(5) by simp_all
    define dw where "dw = memcpy (replicate 8 0xFF) p n"
    define hw1 where
      "hw1 = hw\<lparr>ops := OpProgram addr dw # ops hw, mem := nor_store (mem hw) addr dw\<rparr>"
    have up: "8 * ((n + 7) div 8) = 8" using n(1) False by (rule up8_tail)
    have len: "length dw = 8" using n less.prems(2) by (simp add: dw_def memcpy_def)
    have prog: "HAL_FLASH_Program hw addr dw = (HAL_OK, hw1)"
      using less.prems(1) by (simp add: HAL_FLASH_Program_ok hw1_def)
    have rb: "load_bytes (mem hw1) addr 8 = dw"
      unfolding hw1_def using len up less.prems(4)
      by (simp add: load_bytes_nor_store_erased)
    have res: "Flash_Write_chunks hw addr p n = (HAL_OK, HAL_FLASH_Lock hw1)"
      by (subst Flash_Write_chunks.simps) (simp add: n False prog rb flip: dw_def)
    have "mem hw1 (addr + of_nat j) = mem hw (addr + of_nat j) AND dw ! j"
      unfolding hw1_def using nor_store_at[of dw j "mem hw" addr] len less.prems(5) n by simp
    also have "\<dots> = dw ! j" using less.prems(4)[of j] less.prems(5) n up by (simp add: ff_and)
    also have "\<dots> = p ! j" using less.prems(2,5) by (simp add: dw_def memcpy_def nth_append)
    finally show ?thesis by (simp add: res HAL_FLASH_Lock_def)
  qed
qed

lemma Flash_Write_cfg_data:
  assumes "faults hw = []" "512 \<le> length src"
    and "\<And>j. j < 512 \<Longrightarrow> mem hw (LIFU_CFG_PAGE_ADDR + of_nat j) = 0xFF"
    and "i < 512"
  shows "mem (snd (Flash_Write hw LIFU_CFG_PAGE_ADDR src cfg_words)) (LIFU_CFG_PAGE_ADDR + of_nat i)
         = src ! i"
proof -
  define hw1 where "hw1 = hw\<lparr>locked := False\<rparr>"
  have w: "Flash_Write hw LIFU_CFG_PAGE_ADDR src cfg_words =
           Flash_Write_chunks hw1 LIFU_CFG_PAGE_ADDR src 512"
    using assms(1)
    by (simp add: Flash_Write_def cfg_words_val page_addr_aligned HAL_FLASH_Unlock_def
        hal_result_def Flash_ClearErrors_def hw1_def)
  have "mem (snd (Flash_Write_chunks hw1 LIFU_CFG_PAGE_ADDR src 512)) (LIFU_CFG_PAGE_ADDR + of_nat i)
        = src ! i"
  proof (rule Flash_Write_chunks_data)
    show "faults hw1 = []" using assms(1) by (simp add: hw1_def)
    show "512 \<le> length src" by (rule assms(2))
    show "8 * ((512 + 7) div 8) < (2::nat) ^ 32" by simp
    show "\<And>j. j < 8 * ((512 + 7) div 8) \<Longrightarrow> mem hw1 (LIFU_CFG_PAGE_ADDR + of_nat j) = 0xFF"
      using assms(3) by (simp add: hw1_def)
    show "i < 512" by (rule assms(4))
  qed
  then show ?thesis by (simp only: w)
qed

lemma writeback_flash_data:
  assumes "faults (flash s) = []" "wf_cfg (g_cfg s)" "i < 512"
  shows "mem (flash (snd (lifu_cfg_writeback s))) (LIFU_CFG_PAGE_ADDR + of_nat i) =
         cfg_bytes (g_cfg (snd (lifu_cfg_writeback s))) ! i"
proof -
  define c3 where "c3 = g_cfg (snd (lifu_cfg_writeback s))"
  define hw1 where "hw1 = (flash s)\<lparr>locked := True, ops := OpErase FLASH_BANK_1 127 1 # ops (flash s),
        mem := (\<lambda>a. if in_erased_pages FLASH_BANK_1 127 1 a then 0xFF else mem (flash s) a)\<rparr>"
  have er: "Flash_Erase (flash s) LIFU_CFG_PAGE_ADDR LIFU_CFG_PAGE_END = (HAL_OK, hw1)"
    unfolding hw1_def by (rule Flash_Erase_ok[OF assms(1)])
  have wb: "lifu_cfg_writeback s =
     (fst (Flash_Write hw1 LIFU_CFG_PAGE_ADDR (cfg_bytes c3) cfg_words),
      s\<lparr>g_cfg := c3, flash := snd (Flash_Write hw1 LIFU_CFG_PAGE_ADDR (cfg_bytes c3) cfg_words)\<rparr>)"
    unfolding c3_def
    by (simp add: lifu_cfg_writeback_def Let_def er split: prod.splits)
  have len: "512 \<le> length (cfg_bytes c3)"
    using writeback_wf[OF assms(2)] by (simp add: length_cfg_bytes c3_def wf_cfg_def JSON_MAX_val)
  have f1: "faults hw1 = []" using assms(1) by (simp add: hw1_def)
  have e512: "\<And>j. j < 512 \<Longrightarrow> mem hw1 (LIFU_CFG_PAGE_ADDR + of_nat j) = 0xFF"
    using page_off_erased by (simp add: hw1_def)
  have "mem (snd (Flash_Write hw1 LIFU_CFG_PAGE_ADDR (cfg_bytes c3) cfg_words))
          (LIFU_CFG_PAGE_ADDR + of_nat i) = cfg_bytes c3 ! i"
    by (rule Flash_Write_cfg_data[OF f1 len e512 assms(3)])
  then show ?thesis unfolding c3_def[symmetric] by (simp add: wb)
qed

text \<open>The first 512 bytes of the page after a write-back that the hardware accepts.\<close>

lemma writeback_flash_image:
  assumes "faults (flash s) = []" "wf_cfg (g_cfg s)"
  shows "load_bytes (mem (flash (snd (lifu_cfg_writeback s)))) LIFU_CFG_PAGE_ADDR 512 =
         take 512 (cfg_bytes (g_cfg (snd (lifu_cfg_writeback s))))"
proof (rule nth_equalityI)
  show "length (load_bytes (mem (flash (snd (lifu_cfg_writeback s)))) LIFU_CFG_PAGE_ADDR 512) =
        length (take 512 (cfg_bytes (g_cfg (snd (lifu_cfg_writeback s)))))"
    using writeback_wf[OF assms(2)]
    by (simp add: load_bytes_def length_cfg_bytes wf_cfg_def JSON_MAX_val)
next
  fix i assume "i < length (load_bytes (mem (flash (snd (lifu_cfg_writeback s)))) LIFU_CFG_PAGE_ADDR 512)"
  then have i: "i < 512" by (simp add: load_bytes_def)
  show "load_bytes (mem (flash (snd (lifu_cfg_writeback s)))) LIFU_CFG_PAGE_ADDR 512 ! i =
        take 512 (cfg_bytes (g_cfg (snd (lifu_cfg_writeback s)))) ! i"
    using writeback_flash_data[OF assms i] i by (simp add: load_bytes_def)
qed

text \<open>Power is cycled after a write-back that the hardware accepted: what the next raw
  load finds. Of the payload only the first 496 bytes come back.\<close>

lemma load_raw_after_writeback:
  assumes "faults (flash s) = []" "wf_cfg (g_cfg s)"
  shows "g_cfg (lifu_cfg_load_raw (power_on (flash (snd (lifu_cfg_writeback s))))) =
     zero_cfg\<lparr>magic := magic (g_cfg (snd (lifu_cfg_writeback s))),
              version := version (g_cfg (snd (lifu_cfg_writeback s))),
              seq := seq (g_cfg (snd (lifu_cfg_writeback s))),
              crc := crc (g_cfg (snd (lifu_cfg_writeback s))),
              reserved := reserved (g_cfg (snd (lifu_cfg_writeback s))),
              json := take 496 (json (g_cfg (snd (lifu_cfg_writeback s)))) @ replicate 1536 0\<rparr>"
  by (rule load_raw_image[OF writeback_flash_image[OF assms] writeback_wf[OF assms(2)]])

section \<open>Facts about the example inputs\<close>

lemma misaligned_iff: "(address AND 0x7 \<noteq> 0) = (\<not> 8 dvd unat (address :: uint32_t))"
  using and_mask_dvd_nat[of 3 address] by (simp add: mask_eq_exp_minus_1)

lemma cand_two_strings_wf: "wf_cfg cand_two_strings"
  by (simp add: wf_cfg_def cand_two_strings_def JSON_MAX_val)

lemma cand_two_strings_strnlen: "strnlen (json cand_two_strings) (LIFU_CFG_JSON_MAX - 1) = 1"
  by (simp add: strnlen_def cand_two_strings_def JSON_MAX_val)

lemma blank_power_on_facts:
  "faults (flash (power_on blank_flash)) = []" "wf_cfg (g_cfg (power_on blank_flash))"
  by (simp_all add: power_on_fields blank_flash_fields zero_cfg_wf)

lemma blank_ensure_seq: "seq (g_cfg (lifu_cfg_ensure_loaded (power_on blank_flash))) = 1"
  by (simp add: ensure_loaded_regenerates[OF _ blank_load_invalid] power_on_fields)

section \<open>Facts about a restart after the defaults were written\<close>

lemma ensure_loaded_keeps_valid:
  assumes "\<not> g_cfg_loaded s" "lifu_cfg_is_valid (g_cfg (lifu_cfg_load_raw s))"
  shows "g_cfg (lifu_cfg_ensure_loaded s) = g_cfg (lifu_cfg_load_raw s)"
  using assms by (simp add: lifu_cfg_ensure_loaded_def Let_def)

lemma regenerated_record_reloads:
  assumes "\<not> g_cfg_loaded s" "\<not> lifu_cfg_is_valid (g_cfg (lifu_cfg_load_raw s))"
    and "faults (flash s) = []" "wf_cfg (g_cfg s)"
  shows "fst (lifu_cfg_get (power_on (flash (snd (lifu_cfg_get s))))) = fst (lifu_cfg_get s)"
proof -
  define s1 where "s1 = (lifu_cfg_load_raw s)\<lparr>g_cfg := lifu_cfg_make_defaults (g_cfg (lifu_cfg_load_raw s))\<rparr>"
  define D where "D = g_cfg (snd (lifu_cfg_writeback s1))"
  define hw' where "hw' = flash (snd (lifu_cfg_writeback s1))"
  have e: "lifu_cfg_ensure_loaded s = (snd (lifu_cfg_writeback s1))\<lparr>g_cfg_loaded := True\<rparr>"
    using assms(1,2) by (simp add: lifu_cfg_ensure_loaded_def Let_def s1_def)
  have g: "fst (lifu_cfg_get s) = D" "flash (snd (lifu_cfg_get s)) = hw'"
    by (simp_all add: lifu_cfg_get_def Let_def e D_def hw'_def)
  have f1: "faults (flash s1) = []" using assms(3) by (simp add: s1_def load_raw_flash)
  have w1: "wf_cfg (g_cfg s1)" by (simp add: s1_def make_defaults_wf)
  have Deq: "D = \<lparr>magic = LIFU_MAGIC, version = LIFU_VER, seq = 1,
      crc = crc16_ccitt (le32 LIFU_MAGIC @ le32 LIFU_VER @ le32 1) 12, reserved = 0,
      json = replicate LIFU_CFG_JSON_MAX 0,
      hv_settng = 0, hv_enabled = 0, auto_on = 0\<rparr>"
    using ensure_loaded_regenerates[OF assms(1,2)] by (simp add: e D_def)
  have v: "lifu_cfg_is_valid D" unfolding D_def s1_def by (rule defaults_writeback_valid)
  have "g_cfg (lifu_cfg_load_raw (power_on hw')) =
     zero_cfg\<lparr>magic := magic D, version := version D, seq := seq D, crc := crc D,
              reserved := reserved D, json := take 496 (json D) @ replicate 1536 0\<rparr>"
    unfolding hw'_def D_def by (rule load_raw_after_writeback[OF f1 w1])
  also have "\<dots> = D"
  proof -
    have "take 496 (replicate LIFU_CFG_JSON_MAX (0::uint8_t)) @ replicate 1536 0 = replicate LIFU_CFG_JSON_MAX 0"
      by (simp add: JSON_MAX_val flip: replicate_add)
    then show ?thesis by (simp add: Deq zero_cfg_def)
  qed
  finally have l: "g_cfg (lifu_cfg_load_raw (power_on hw')) = D" .
  have "g_cfg (lifu_cfg_ensure_loaded (power_on hw')) = g_cfg (lifu_cfg_load_raw (power_on hw'))"
    by (rule ensure_loaded_keeps_valid) (simp_all add: power_on_fields l v)
  then have "fst (lifu_cfg_get (power_on hw')) = D"
    by (simp add: lifu_cfg_get_def Let_def l)
  then show ?thesis by (simp only: g)
qed

section \<open>Facts about the cache after an edit in place\<close>

lemma save_valid_any:
  assumes "wf_cfg (g_cfg s)" "wf_cfg c"
  shows "lifu_cfg_is_valid (g_cfg (snd (lifu_cfg_save c s)))"
proof -
  have wf: "wf_cfg (g_cfg (lifu_cfg_ensure_loaded s))"
    by (rule ensure_loaded_wf[OF assms(1)])
  show ?thesis
    unfolding lifu_cfg_save_def Let_def
    by (rule writeback_valid) (use wf assms(2) in \<open>simp_all add: wf_cfg_def memcpy_def\<close>)
qed

lemma writeback_valid_iff:
  assumes "wf_cfg (g_cfg s)"
  shows "lifu_cfg_is_valid (g_cfg (snd (lifu_cfg_writeback s))) =
         (magic (g_cfg s) = LIFU_MAGIC \<and> version (g_cfg s) = LIFU_VER)"
proof
  assume v: "lifu_cfg_is_valid (g_cfg (snd (lifu_cfg_writeback s)))"
  show "magic (g_cfg s) = LIFU_MAGIC \<and> version (g_cfg s) = LIFU_VER"
    using is_valid_fields(1,2)[OF v] by (simp add: writeback_fields)
next
  assume "magic (g_cfg s) = LIFU_MAGIC \<and> version (g_cfg s) = LIFU_VER"
  then show "lifu_cfg_is_valid (g_cfg (snd (lifu_cfg_writeback s)))"
    using writeback_valid[OF assms] by blast
qed

lemma commit_loaded_valid_iff:
  assumes "g_cfg_loaded s" "wf_cfg (g_cfg s)"
  shows "lifu_cfg_is_valid (g_cfg (snd (lifu_cfg_commit s))) =
         (magic (g_cfg s) = LIFU_MAGIC \<and> version (g_cfg s) = LIFU_VER)"
  unfolding lifu_cfg_commit_def ensure_loaded_id[OF assms(1)]
  by (rule writeback_valid_iff[OF assms(2)])

lemma edit_in_place_fields:
  "g_cfg (edit_in_place f s) = f (g_cfg s)"
  "g_cfg_loaded (edit_in_place f s) = g_cfg_loaded s"
  "flash (edit_in_place f s) = flash s"
  by (simp_all add: edit_in_place_def)

lemma first_get_blank:
  "g_cfg_loaded (snd (lifu_cfg_get (power_on blank_flash)))"
  "wf_cfg (g_cfg (snd (lifu_cfg_get (power_on blank_flash))))"
  "faults (flash (snd (lifu_cfg_get (power_on blank_flash)))) = []"
  "magic (g_cfg (snd (lifu_cfg_get (power_on blank_flash)))) = LIFU_MAGIC"
  "version (g_cfg (snd (lifu_cfg_get (power_on blank_flash)))) = LIFU_VER"
  using is_valid_fields(1,2)[OF ensure_loaded_valid[OF power_on_inv, of blank_flash]]
  by (simp_all add: lifu_cfg_get_def Let_def ensure_loaded_flag
      ensure_loaded_wf[OF blank_power_on_facts(2)] ensure_loaded_faults[OF blank_power_on_facts])

lemma fill_json_invalid: "\<not> lifu_cfg_is_valid (fill_json 0x41 c)"
  by (simp add: lifu_cfg_is_valid_def fill_json_def memchr_found_def)

section \<open>Facts about flash after an accepted write\<close>

lemma HAL_FLASH_Program_accepted:
  assumes "HAL_FLASH_Program hw addr dw = (HAL_OK, hw1)"
  shows "mem hw1 = nor_store (mem hw) addr dw"
  using assms
  by (auto simp: HAL_FLASH_Program_def hal_result_def Let_def split: list.splits if_splits)

lemma HAL_FLASH_Program_refused:
  assumes "HAL_FLASH_Program hw addr dw = (st, hw1)" "st \<noteq> HAL_OK"
  shows "mem hw1 = mem hw"
  using assms
  by (auto simp: HAL_FLASH_Program_def hal_result_def Let_def split: list.splits if_splits)

lemma load_bytes_nth: "i < n \<Longrightarrow> load_bytes m a n ! i = m (a + of_nat i)"
  by (simp add: load_bytes_def)

lemma Flash_Write_chunks_accepted:
  "fst (Flash_Write_chunks hw addr p n) = HAL_OK \<Longrightarrow> n \<le> length p \<Longrightarrow>
   8 * ((n + 7) div 8) < 2 ^ 32 \<Longrightarrow>
     (\<forall>j<n. mem (snd (Flash_Write_chunks hw addr p n)) (addr + of_nat j) = p ! j) \<and>
     (\<forall>x. (\<forall>j<8 * ((n + 7) div 8). x \<noteq> addr + of_nat j) \<longrightarrow>
          mem (snd (Flash_Write_chunks hw addr p n)) x = mem hw x)"
proof (induction n arbitrary: hw addr p rule: less_induct)
  case (less n)
  show ?case
  proof (cases "8 \<le> n")
    case True
    define dw where "dw = take 8 p"
    obtain st hw1 where prog: "HAL_FLASH_Program hw addr dw = (st, hw1)"
      by (cases "HAL_FLASH_Program hw addr dw")
    have unf: "Flash_Write_chunks hw addr p n =
        (if st \<noteq> HAL_OK then (st, HAL_FLASH_Lock hw1)
         else if load_bytes (mem hw1) addr 8 \<noteq> dw then (HAL_ERROR, HAL_FLASH_Lock hw1)
         else Flash_Write_chunks hw1 (addr + 8) (drop 8 p) (n - 8))"
      by (subst Flash_Write_chunks.simps) (simp add: True prog flip: dw_def)
    have st: "st = HAL_OK" using less.prems(1) unf by (auto split: if_splits)
    have rb: "load_bytes (mem hw1) addr 8 = dw"
      using less.prems(1) unf st by (auto split: if_splits)
    have step: "Flash_Write_chunks hw addr p n =
                Flash_Write_chunks hw1 (addr + 8) (drop 8 p) (n - 8)"
      using unf st rb by simp
    have m1: "mem hw1 = nor_store (mem hw) addr dw"
      using prog st by (simp add: HAL_FLASH_Program_accepted)
    have len: "length dw = 8" using True less.prems(2) by (simp add: dw_def)
    have up: "8 * ((n - 8 + 7) div 8) + 8 = 8 * ((n + 7) div 8)"
      using True by (rule up8_step)
    have IH: "(\<forall>j<n - 8. mem (snd (Flash_Write_chunks hw1 (addr + 8) (drop 8 p) (n - 8)))
                 (addr + 8 + of_nat j) = drop 8 p ! j) \<and>
       (\<forall>x. (\<forall>j<8 * ((n - 8 + 7) div 8). x \<noteq> addr + 8 + of_nat j) \<longrightarrow>
          mem (snd (Flash_Write_chunks hw1 (addr + 8) (drop 8 p) (n - 8))) x = mem hw1 x)"
    proof (rule less.IH)
      show "n - 8 < n" using True by simp
      show "fst (Flash_Write_chunks hw1 (addr + 8) (drop 8 p) (n - 8)) = HAL_OK"
        using less.prems(1) step by simp
      show "n - 8 \<le> length (drop 8 p)" using less.prems(2) by simp
      show "8 * ((n - 8 + 7) div 8) < 2 ^ 32" using up less.prems(3) by simp
    qed
    have first: "mem hw1 (addr + of_nat j) = p ! j" if "j < 8" for j
    proof -
      have "load_bytes (mem hw1) addr 8 ! j = mem hw1 (addr + of_nat j)"
        using that by (rule load_bytes_nth)
      then show ?thesis using rb that by (simp add: dw_def)
    qed
    have data: "mem (snd (Flash_Write_chunks hw1 (addr + 8) (drop 8 p) (n - 8))) (addr + of_nat j) = p ! j"
      if j: "j < n" for j
    proof (cases "j < 8")
      case j8: True
      have out: "\<forall>k<8 * ((n - 8 + 7) div 8). addr + of_nat j \<noteq> addr + 8 + of_nat k"
      proof (intro allI impI)
        fix k assume k: "k < 8 * ((n - 8 + 7) div 8)"
        have "addr + of_nat j \<noteq> addr + of_nat (8 + k)"
          using addr_off_inj[of j "8 + k" addr] j8 k up less.prems(3) by simp
        then show "addr + of_nat j \<noteq> addr + 8 + of_nat k" by (simp add: add.assoc)
      qed
      then have "mem (snd (Flash_Write_chunks hw1 (addr + 8) (drop 8 p) (n - 8))) (addr + of_nat j)
            = mem hw1 (addr + of_nat j)"
        using IH by blast
      then show ?thesis using first[OF j8] by simp
    next
      case False
      then have j': "j - 8 < n - 8" "j = 8 + (j - 8)" using j by simp_all
      have a: "mem (snd (Flash_Write_chunks hw1 (addr + 8) (drop 8 p) (n - 8)))
              (addr + 8 + of_nat (j - 8)) = drop 8 p ! (j - 8)"
        using IH j'(1) by blast
      have b: "addr + 8 + of_nat (j - 8) = addr + of_nat j"
        using j'(2) by (metis add.assoc of_nat_add of_nat_numeral)
      have c: "drop 8 p ! (j - 8) = p ! j"
        using j'(2) less.prems(2) j True
        by (metis add.commute nth_drop order_less_le_trans less_imp_le_nat le_trans)
      show ?thesis using a b c by simp
    qed
    have out: "mem (snd (Flash_Write_chunks hw1 (addr + 8) (drop 8 p) (n - 8))) x = mem hw x"
      if x: "\<forall>j<8 * ((n + 7) div 8). x \<noteq> addr + of_nat j" for x
    proof -
      have a: "\<forall>j<8 * ((n - 8 + 7) div 8). x \<noteq> addr + 8 + of_nat j"
      proof (intro allI impI)
        fix j assume "j < 8 * ((n - 8 + 7) div 8)"
        then have "8 + j < 8 * ((n + 7) div 8)" using up by simp
        then have "x \<noteq> addr + of_nat (8 + j)" using x by blast
        then show "x \<noteq> addr + 8 + of_nat j" by (simp add: add.assoc)
      qed
      have "nor_store (mem hw) addr dw x = mem hw x"
      proof (rule nor_store_other)
        fix i assume "i < length dw"
        then have "i < 8 * ((n + 7) div 8)" using up len by simp
        then show "addr + of_nat i \<noteq> x" using x by blast
      qed
      then show ?thesis using IH a by (simp add: m1)
    qed
    show ?thesis unfolding step using data out by blast
  next
    case False
    show ?thesis
    proof (cases "0 < n")
      case True
      define dw where "dw = memcpy (replicate 8 0xFF) p n"
      obtain st hw1 where prog: "HAL_FLASH_Program hw addr dw = (st, hw1)"
        by (cases "HAL_FLASH_Program hw addr dw")
      have unf: "Flash_Write_chunks hw addr p n =
        (if st \<noteq> HAL_OK then (st, HAL_FLASH_Lock hw1)
         else if load_bytes (mem hw1) addr 8 \<noteq> dw then (HAL_ERROR, HAL_FLASH_Lock hw1)
         else (HAL_OK, HAL_FLASH_Lock hw1))"
        by (subst Flash_Write_chunks.simps) (simp add: True False prog flip: dw_def)
      have st: "st = HAL_OK" using less.prems(1) unf by (auto split: if_splits)
      have rb: "load_bytes (mem hw1) addr 8 = dw"
        using less.prems(1) unf st by (auto split: if_splits)
      have res: "Flash_Write_chunks hw addr p n = (HAL_OK, HAL_FLASH_Lock hw1)"
        using unf st rb by simp
      have m1: "mem hw1 = nor_store (mem hw) addr dw"
        using prog st by (simp add: HAL_FLASH_Program_accepted)
      have up: "8 * ((n + 7) div 8) = 8" using True False by (rule up8_tail)
      have len: "length dw = 8" using False less.prems(2) by (simp add: dw_def memcpy_def)
      have data: "mem hw1 (addr + of_nat j) = p ! j" if j: "j < n" for j
      proof -
        have j8: "j < 8" using j False by simp
        have "load_bytes (mem hw1) addr 8 ! j = mem hw1 (addr + of_nat j)"
          using j8 by (rule load_bytes_nth)
        then have "mem hw1 (addr + of_nat j) = dw ! j" using rb by simp
        also have "\<dots> = p ! j" using less.prems(2) j by (simp add: dw_def memcpy_def nth_append)
        finally show ?thesis .
      qed
      have out: "mem hw1 x = mem hw x" if "\<forall>j<8. x \<noteq> addr + of_nat j" for x
      proof -
        have "nor_store (mem hw) addr dw x = mem hw x"
          by (rule nor_store_other) (use that len in auto)
        then show ?thesis by (simp add: m1)
      qed
      show ?thesis unfolding res using data out by (simp add: up HAL_FLASH_Lock_def)
    next
      case n0: False
      then have "Flash_Write_chunks hw addr p n = (HAL_OK, HAL_FLASH_Lock hw)"
        by (subst Flash_Write_chunks.simps) simp
      then show ?thesis using n0 by (simp add: HAL_FLASH_Lock_def)
    qed
  qed
qed

lemma Flash_Erase_accepted:
  assumes "Flash_Erase hw LIFU_CFG_PAGE_ADDR LIFU_CFG_PAGE_END = (HAL_OK, hw1)"
  shows "mem hw1 = (\<lambda>a. if in_erased_pages FLASH_BANK_1 127 1 a then 0xFF else mem hw a)"
proof -
  have n: "\<not> LIFU_CFG_PAGE_END \<le> LIFU_CFG_PAGE_ADDR"
    by (simp add: LIFU_CFG_PAGE_ADDR_def LIFU_CFG_PAGE_END_def)
  show ?thesis
    using assms n
    by (auto simp: Flash_Erase_def HAL_FLASH_Unlock_def hal_result_def Flash_ClearErrors_def
        GetPage_cfg GetBank_def HAL_FLASHEx_Erase_def HAL_FLASH_Lock_def Let_def
        split: list.splits if_splits)
qed

lemma Flash_Write_cfg_accepted:
  assumes "fst (Flash_Write hw LIFU_CFG_PAGE_ADDR src cfg_words) = HAL_OK" "512 \<le> length src"
  shows "i < 512 \<Longrightarrow>
           mem (snd (Flash_Write hw LIFU_CFG_PAGE_ADDR src cfg_words)) (LIFU_CFG_PAGE_ADDR + of_nat i)
             = src ! i"
    and "(\<And>j. j < 512 \<Longrightarrow> x \<noteq> LIFU_CFG_PAGE_ADDR + of_nat j) \<Longrightarrow>
           mem (snd (Flash_Write hw LIFU_CFG_PAGE_ADDR src cfg_words)) x = mem hw x"
proof -
  obtain st hw1 where u: "HAL_FLASH_Unlock hw = (st, hw1)" by (cases "HAL_FLASH_Unlock hw")
  have m1: "mem hw1 = mem hw"
    using u by (auto simp: HAL_FLASH_Unlock_def hal_result_def Let_def split: list.splits if_splits)
  have unf: "Flash_Write hw LIFU_CFG_PAGE_ADDR src cfg_words =
      (if st \<noteq> HAL_OK then (st, hw1) else Flash_Write_chunks hw1 LIFU_CFG_PAGE_ADDR src 512)"
    by (simp add: Flash_Write_def cfg_words_val page_addr_aligned u Flash_ClearErrors_def)
  have st: "st = HAL_OK" using assms(1) unf by (auto split: if_splits)
  have w: "Flash_Write hw LIFU_CFG_PAGE_ADDR src cfg_words =
           Flash_Write_chunks hw1 LIFU_CFG_PAGE_ADDR src 512"
    using unf st by simp
  have c: "(\<forall>j<512. mem (snd (Flash_Write_chunks hw1 LIFU_CFG_PAGE_ADDR src 512))
                (LIFU_CFG_PAGE_ADDR + of_nat j) = src ! j) \<and>
     (\<forall>x. (\<forall>j<8 * ((512 + 7) div 8). x \<noteq> LIFU_CFG_PAGE_ADDR + of_nat j) \<longrightarrow>
          mem (snd (Flash_Write_chunks hw1 LIFU_CFG_PAGE_ADDR src 512)) x = mem hw1 x)"
  proof (rule Flash_Write_chunks_accepted)
    show "fst (Flash_Write_chunks hw1 LIFU_CFG_PAGE_ADDR src 512) = HAL_OK"
      using assms(1) w by simp
    show "512 \<le> length src" by (rule assms(2))
    show "8 * ((512 + 7) div 8) < (2::nat) ^ 32" by simp
  qed
  show "mem (snd (Flash_Write hw LIFU_CFG_PAGE_ADDR src cfg_words)) (LIFU_CFG_PAGE_ADDR + of_nat i)
             = src ! i" if "i < 512"
    using c that by (simp add: w)
  show "mem (snd (Flash_Write hw LIFU_CFG_PAGE_ADDR src cfg_words)) x = mem hw x"
    if "\<And>j. j < 512 \<Longrightarrow> x \<noteq> LIFU_CFG_PAGE_ADDR + of_nat j"
    using c that by (simp add: w m1)
qed

lemma writeback_accepted:
  assumes "fst (lifu_cfg_writeback s) = HAL_OK" "wf_cfg (g_cfg s)"
  shows "i < 512 \<Longrightarrow>
           mem (flash (snd (lifu_cfg_writeback s))) (LIFU_CFG_PAGE_ADDR + of_nat i) =
           cfg_bytes (g_cfg (snd (lifu_cfg_writeback s))) ! i"
    and "512 \<le> i \<Longrightarrow> i < 2048 \<Longrightarrow>
           mem (flash (snd (lifu_cfg_writeback s))) (LIFU_CFG_PAGE_ADDR + of_nat i) = 0xFF"
proof -
  define c3 where "c3 = g_cfg (snd (lifu_cfg_writeback s))"
  obtain st hw1 where er: "Flash_Erase (flash s) LIFU_CFG_PAGE_ADDR LIFU_CFG_PAGE_END = (st, hw1)"
    by (cases "Flash_Erase (flash s) LIFU_CFG_PAGE_ADDR LIFU_CFG_PAGE_END")
  have cfg: "g_cfg (snd (lifu_cfg_writeback s)) = c3" by (simp add: c3_def)
  have unf: "lifu_cfg_writeback s =
     (if st \<noteq> HAL_OK then (st, s\<lparr>g_cfg := c3, flash := hw1\<rparr>)
      else (fst (Flash_Write hw1 LIFU_CFG_PAGE_ADDR (cfg_bytes c3) cfg_words),
            s\<lparr>g_cfg := c3, flash := snd (Flash_Write hw1 LIFU_CFG_PAGE_ADDR (cfg_bytes c3) cfg_words)\<rparr>))"
    unfolding c3_def
    by (simp add: lifu_cfg_writeback_def Let_def er split: prod.splits)
  have st: "st = HAL_OK" using assms(1) unf by (auto split: if_splits)
  have wb: "lifu_cfg_writeback s =
     (fst (Flash_Write hw1 LIFU_CFG_PAGE_ADDR (cfg_bytes c3) cfg_words),
      s\<lparr>g_cfg := c3, flash := snd (Flash_Write hw1 LIFU_CFG_PAGE_ADDR (cfg_bytes c3) cfg_words)\<rparr>)"
    using unf st by simp
  have ok: "fst (Flash_Write hw1 LIFU_CFG_PAGE_ADDR (cfg_bytes c3) cfg_words) = HAL_OK"
    using assms(1) wb by simp
  have len: "512 \<le> length (cfg_bytes c3)"
    using writeback_wf[OF assms(2)] by (simp add: length_cfg_bytes c3_def wf_cfg_def JSON_MAX_val)
  have e1: "mem hw1 (LIFU_CFG_PAGE_ADDR + of_nat j) = 0xFF" if "j < 2048" for j
    using Flash_Erase_accepted[OF er[unfolded st]] page_off_erased[OF that] by simp
  show "mem (flash (snd (lifu_cfg_writeback s))) (LIFU_CFG_PAGE_ADDR + of_nat i) =
           cfg_bytes (g_cfg (snd (lifu_cfg_writeback s))) ! i" if "i < 512"
    unfolding cfg using Flash_Write_cfg_accepted(1)[OF ok len that] by (simp add: wb)
  show "mem (flash (snd (lifu_cfg_writeback s))) (LIFU_CFG_PAGE_ADDR + of_nat i) = 0xFF"
    if i: "512 \<le> i" "i < 2048"
  proof -
    have ne: "LIFU_CFG_PAGE_ADDR + of_nat i \<noteq> LIFU_CFG_PAGE_ADDR + of_nat j" if "j < 512" for j
      using addr_off_inj[of i j LIFU_CFG_PAGE_ADDR] i that by simp
    have "mem (snd (Flash_Write hw1 LIFU_CFG_PAGE_ADDR (cfg_bytes c3) cfg_words))
            (LIFU_CFG_PAGE_ADDR + of_nat i) = mem hw1 (LIFU_CFG_PAGE_ADDR + of_nat i)"
      by (rule Flash_Write_cfg_accepted(2)[OF ok len]) (use ne in blast)
    then show ?thesis using e1[OF i(2)] by (simp add: wb)
  qed
qed

section \<open>Facts about the page after a regeneration\<close>

lemma load_raw_magic_erased:
  assumes "mem (flash s) = (\<lambda>a. 0xFF)"
  shows "magic (g_cfg (lifu_cfg_load_raw s)) = 0xFFFFFFFF"
  by (simp add: lifu_cfg_load_raw_def Flash_Read_def assms
      cfg_of_bytes_def memcpy_def load_bytes_def cfg_words_val rd32_def nth_append)

lemma load_raw_invalid_erased:
  assumes "mem (flash s) = (\<lambda>a. 0xFF)"
  shows "\<not> lifu_cfg_is_valid (g_cfg (lifu_cfg_load_raw s))"
  by (simp add: lifu_cfg_is_valid_def load_raw_magic_erased[OF assms] LIFU_MAGIC_def)

lemma writeback_unlock_refused:
  assumes "faults (flash s) = st # rest" "st \<noteq> HAL_OK"
  shows "mem (flash (snd (lifu_cfg_writeback s))) = mem (flash s)"
    and "fst (lifu_cfg_writeback s) = st"
proof -
  have "\<not> LIFU_CFG_PAGE_END \<le> LIFU_CFG_PAGE_ADDR"
    by (simp add: LIFU_CFG_PAGE_ADDR_def LIFU_CFG_PAGE_END_def)
  then show "mem (flash (snd (lifu_cfg_writeback s))) = mem (flash s)"
    and "fst (lifu_cfg_writeback s) = st"
    using assms
    by (simp_all add: lifu_cfg_writeback_def Let_def Flash_Erase_def HAL_FLASH_Unlock_def
        hal_result_def)
qed

lemma get_refused:
  "mem (flash (snd (lifu_cfg_get (power_on (blank_flash\<lparr>faults := [HAL_ERROR]\<rparr>))))) = (\<lambda>a. 0xFF)"
  "regeneration_status (power_on (blank_flash\<lparr>faults := [HAL_ERROR]\<rparr>)) = HAL_ERROR"
proof -
  define s0 where "s0 = power_on (blank_flash\<lparr>faults := [HAL_ERROR]\<rparr>)"
  have m0: "mem (flash s0) = (\<lambda>a. 0xFF)" by (simp add: s0_def power_on_fields blank_flash_def)
  have iv: "\<not> lifu_cfg_is_valid (g_cfg (lifu_cfg_load_raw s0))"
    by (rule load_raw_invalid_erased[OF m0])
  define s1 where "s1 = (lifu_cfg_load_raw s0)\<lparr>g_cfg := lifu_cfg_make_defaults (g_cfg (lifu_cfg_load_raw s0))\<rparr>"
  have e: "lifu_cfg_ensure_loaded s0 = (snd (lifu_cfg_writeback s1))\<lparr>g_cfg_loaded := True\<rparr>"
    using iv by (simp add: lifu_cfg_ensure_loaded_def Let_def s1_def s0_def power_on_fields)
  have f1: "faults (flash s1) = [HAL_ERROR]"
    by (simp add: s1_def load_raw_flash s0_def power_on_fields blank_flash_def)
  have m1: "mem (flash s1) = (\<lambda>a. 0xFF)" by (simp add: s1_def load_raw_flash m0)
  have "mem (flash (snd (lifu_cfg_writeback s1))) = mem (flash s1)"
    by (rule writeback_unlock_refused(1)[OF f1]) simp
  then show "mem (flash (snd (lifu_cfg_get (power_on (blank_flash\<lparr>faults := [HAL_ERROR]\<rparr>))))) = (\<lambda>a. 0xFF)"
    unfolding s0_def[symmetric] by (simp add: lifu_cfg_get_def Let_def e m1)
  have "fst (lifu_cfg_writeback s1) = HAL_ERROR"
    by (rule writeback_unlock_refused(2)[OF f1]) simp
  then show "regeneration_status (power_on (blank_flash\<lparr>faults := [HAL_ERROR]\<rparr>)) = HAL_ERROR"
    unfolding s0_def[symmetric] by (simp add: regeneration_status_def s1_def)
qed

lemma writeback_accepted_image:
  assumes "fst (lifu_cfg_writeback s) = HAL_OK" "wf_cfg (g_cfg s)"
  shows "load_bytes (mem (flash (snd (lifu_cfg_writeback s)))) LIFU_CFG_PAGE_ADDR 512 =
         take 512 (cfg_bytes (g_cfg (snd (lifu_cfg_writeback s))))"
proof (rule nth_equalityI)
  show "length (load_bytes (mem (flash (snd (lifu_cfg_writeback s)))) LIFU_CFG_PAGE_ADDR 512) =
        length (take 512 (cfg_bytes (g_cfg (snd (lifu_cfg_writeback s)))))"
    using writeback_wf[OF assms(2)]
    by (simp add: load_bytes_def length_cfg_bytes wf_cfg_def JSON_MAX_val)
next
  fix i assume "i < length (load_bytes (mem (flash (snd (lifu_cfg_writeback s)))) LIFU_CFG_PAGE_ADDR 512)"
  then have i: "i < 512" by (simp add: load_bytes_def)
  show "load_bytes (mem (flash (snd (lifu_cfg_writeback s)))) LIFU_CFG_PAGE_ADDR 512 ! i =
        take 512 (cfg_bytes (g_cfg (snd (lifu_cfg_writeback s)))) ! i"
    using writeback_accepted(1)[OF assms i] i by (simp add: load_bytes_def)
qed

lemma writeback_accepted_page:
  assumes "fst (lifu_cfg_writeback s) = HAL_OK" "wf_cfg (g_cfg s)"
  shows "load_bytes (mem (flash (snd (lifu_cfg_writeback s)))) LIFU_CFG_PAGE_ADDR 2048 =
         take 512 (cfg_bytes (g_cfg (snd (lifu_cfg_writeback s)))) @ replicate 1536 0xFF"
proof (rule nth_equalityI)
  show "length (load_bytes (mem (flash (snd (lifu_cfg_writeback s)))) LIFU_CFG_PAGE_ADDR 2048) =
        length (take 512 (cfg_bytes (g_cfg (snd (lifu_cfg_writeback s)))) @ replicate 1536 (0xFF::uint8_t))"
    using writeback_wf[OF assms(2)]
    by (simp add: load_bytes_def length_cfg_bytes wf_cfg_def JSON_MAX_val)
next
  fix i assume "i < length (load_bytes (mem (flash (snd (lifu_cfg_writeback s)))) LIFU_CFG_PAGE_ADDR 2048)"
  then have i: "i < 2048" by (simp add: load_bytes_def)
  have len: "length (take 512 (cfg_bytes (g_cfg (snd (lifu_cfg_writeback s))))) = 512"
    using writeback_wf[OF assms(2)] by (simp add: length_cfg_bytes wf_cfg_def JSON_MAX_val)
  show "load_bytes (mem (flash (snd (lifu_cfg_writeback s)))) LIFU_CFG_PAGE_ADDR 2048 ! i =
        (take 512 (cfg_bytes (g_cfg (snd (lifu_cfg_writeback s)))) @ replicate 1536 0xFF) ! i"
  proof (cases "i < 512")
    case True
    then show ?thesis
      using writeback_accepted(1)[OF assms True] i len by (simp add: load_bytes_def nth_append)
  next
    case False
    then have "512 \<le> i" by simp
    then show ?thesis
      using writeback_accepted(2)[OF assms _ i] i len False by (simp add: load_bytes_def nth_append)
  qed
qed

lemma load_raw_accepted:
  assumes "fst (lifu_cfg_writeback s) = HAL_OK" "wf_cfg (g_cfg s)"
  shows "g_cfg (lifu_cfg_load_raw (power_on (flash (snd (lifu_cfg_writeback s))))) =
     zero_cfg\<lparr>magic := magic (g_cfg (snd (lifu_cfg_writeback s))),
              version := version (g_cfg (snd (lifu_cfg_writeback s))),
              seq := seq (g_cfg (snd (lifu_cfg_writeback s))),
              crc := crc (g_cfg (snd (lifu_cfg_writeback s))),
              reserved := reserved (g_cfg (snd (lifu_cfg_writeback s))),
              json := take 496 (json (g_cfg (snd (lifu_cfg_writeback s)))) @ replicate 1536 0\<rparr>"
  by (rule load_raw_image[OF writeback_accepted_image[OF assms] writeback_wf[OF assms(2)]])

lemma page_record_accepted:
  assumes "fst (lifu_cfg_writeback s) = HAL_OK" "wf_cfg (g_cfg s)"
  shows "page_record (flash (snd (lifu_cfg_writeback s))) =
     zero_cfg\<lparr>magic := magic (g_cfg (snd (lifu_cfg_writeback s))),
              version := version (g_cfg (snd (lifu_cfg_writeback s))),
              seq := seq (g_cfg (snd (lifu_cfg_writeback s))),
              crc := crc (g_cfg (snd (lifu_cfg_writeback s))),
              reserved := reserved (g_cfg (snd (lifu_cfg_writeback s))),
              json := take 496 (json (g_cfg (snd (lifu_cfg_writeback s)))) @ replicate 1536 0xFF\<rparr>"
proof -
  define r where "r = g_cfg (snd (lifu_cfg_writeback s))"
  have w: "wf_cfg r" unfolding r_def by (rule writeback_wf[OF assms(2)])
  have t: "take 512 (cfg_bytes r) =
       le32 (magic r) @ le32 (version r) @ le32 (seq r) @ le16 (crc r) @ le16 (reserved r) @ take 496 (json r)"
    by (simp add: cfg_bytes_def length_le32 length_le16)
  have b: "load_bytes (mem (flash (snd (lifu_cfg_writeback s)))) LIFU_CFG_PAGE_ADDR 2048 =
       le32 (magic r) @ le32 (version r) @ le32 (seq r) @ le16 (crc r) @ le16 (reserved r) @
       (take 496 (json r) @ replicate 1536 0xFF)"
    unfolding writeback_accepted_page[OF assms] r_def[symmetric] t by simp
  show ?thesis
    unfolding r_def[symmetric] using w
    by (simp add: page_record_def LIFU_CFG_PAGE_SIZE_def b cfg_of_bytes_image wf_cfg_def
        JSON_MAX_val)
qed

lemma get_of_valid_flash:
  assumes "lifu_cfg_is_valid (g_cfg (lifu_cfg_load_raw (power_on hw)))"
  shows "fst (lifu_cfg_get (power_on hw)) = g_cfg (lifu_cfg_load_raw (power_on hw))"
  using assms by (simp add: lifu_cfg_get_def lifu_cfg_ensure_loaded_def Let_def power_on_fields)

lemma regenerated_flash:
  assumes "\<not> g_cfg_loaded s" "\<not> lifu_cfg_is_valid (g_cfg (lifu_cfg_load_raw s))"
    and "regeneration_status s = HAL_OK"
  shows "g_cfg (lifu_cfg_load_raw (power_on (flash (snd (lifu_cfg_get s))))) = fst (lifu_cfg_get s)"
    and "page_record (flash (snd (lifu_cfg_get s))) =
           (fst (lifu_cfg_get s))\<lparr>json := replicate 496 0 @ replicate 1536 0xFF\<rparr>"
    and "fst (lifu_cfg_get (power_on (flash (snd (lifu_cfg_get s))))) = fst (lifu_cfg_get s)"
proof -
  define s1 where "s1 = (lifu_cfg_load_raw s)\<lparr>g_cfg := lifu_cfg_make_defaults (g_cfg (lifu_cfg_load_raw s))\<rparr>"
  define D where "D = g_cfg (snd (lifu_cfg_writeback s1))"
  define hw' where "hw' = flash (snd (lifu_cfg_writeback s1))"
  have e: "lifu_cfg_ensure_loaded s = (snd (lifu_cfg_writeback s1))\<lparr>g_cfg_loaded := True\<rparr>"
    using assms(1,2) by (simp add: lifu_cfg_ensure_loaded_def Let_def s1_def)
  have g: "fst (lifu_cfg_get s) = D" "flash (snd (lifu_cfg_get s)) = hw'"
    by (simp_all add: lifu_cfg_get_def Let_def e D_def hw'_def)
  have ok: "fst (lifu_cfg_writeback s1) = HAL_OK"
    using assms(3) by (simp add: regeneration_status_def s1_def)
  have w1: "wf_cfg (g_cfg s1)" by (simp add: s1_def make_defaults_wf)
  have Deq: "D = \<lparr>magic = LIFU_MAGIC, version = LIFU_VER, seq = 1,
      crc = crc16_ccitt (le32 LIFU_MAGIC @ le32 LIFU_VER @ le32 1) 12, reserved = 0,
      json = replicate LIFU_CFG_JSON_MAX 0,
      hv_settng = 0, hv_enabled = 0, auto_on = 0\<rparr>"
    using ensure_loaded_regenerates[OF assms(1,2)] by (simp add: e D_def)
  have v: "lifu_cfg_is_valid D" unfolding D_def s1_def by (rule defaults_writeback_valid)
  have "g_cfg (lifu_cfg_load_raw (power_on hw')) =
     zero_cfg\<lparr>magic := magic D, version := version D, seq := seq D, crc := crc D,
              reserved := reserved D, json := take 496 (json D) @ replicate 1536 0\<rparr>"
    unfolding hw'_def D_def by (rule load_raw_accepted[OF ok w1])
  also have "\<dots> = D"
  proof -
    have "take 496 (replicate LIFU_CFG_JSON_MAX (0::uint8_t)) @ replicate 1536 0 = replicate LIFU_CFG_JSON_MAX 0"
      by (simp add: JSON_MAX_val flip: replicate_add)
    then show ?thesis by (simp add: Deq zero_cfg_def)
  qed
  finally have l: "g_cfg (lifu_cfg_load_raw (power_on hw')) = D" .
  then show "g_cfg (lifu_cfg_load_raw (power_on (flash (snd (lifu_cfg_get s))))) = fst (lifu_cfg_get s)"
    by (simp only: g)
  have "page_record hw' =
     zero_cfg\<lparr>magic := magic D, version := version D, seq := seq D, crc := crc D,
              reserved := reserved D, json := take 496 (json D) @ replicate 1536 0xFF\<rparr>"
    unfolding hw'_def D_def by (rule page_record_accepted[OF ok w1])
  also have "\<dots> = D\<lparr>json := replicate 496 0 @ replicate 1536 0xFF\<rparr>"
    by (simp add: Deq zero_cfg_def JSON_MAX_val)
  finally show "page_record (flash (snd (lifu_cfg_get s))) =
           (fst (lifu_cfg_get s))\<lparr>json := replicate 496 0 @ replicate 1536 0xFF\<rparr>"
    by (simp only: g)
  have "fst (lifu_cfg_get (power_on hw')) = g_cfg (lifu_cfg_load_raw (power_on hw'))"
    by (rule get_of_valid_flash) (simp add: l v)
  then show "fst (lifu_cfg_get (power_on (flash (snd (lifu_cfg_get s))))) = fst (lifu_cfg_get s)"
    by (simp only: g l)
qed

lemma strnlen_zero_first: "strnlen (replicate 496 0 @ xs) LIFU_CFG_JSON_MAX = 0"
proof -
  have "replicate 496 (0::uint8_t) = 0 # replicate 495 0"
    using replicate_Suc[of 495 "0::uint8_t"] by simp
  then show ?thesis by (simp add: strnlen_def JSON_MAX_val)
qed

lemma regenerated_page_valid:
  assumes "\<not> g_cfg_loaded s" "\<not> lifu_cfg_is_valid (g_cfg (lifu_cfg_load_raw s))"
    and "regeneration_status s = HAL_OK"
  shows "lifu_cfg_is_valid (page_record (flash (snd (lifu_cfg_get s))))"
    and "magic (page_record (flash (snd (lifu_cfg_get s)))) = LIFU_MAGIC"
    and "version (page_record (flash (snd (lifu_cfg_get s)))) = LIFU_VER"
    and "seq (page_record (flash (snd (lifu_cfg_get s)))) = 1"
    and "crc (page_record (flash (snd (lifu_cfg_get s)))) = crc (fst (lifu_cfg_get s))"
    and "strnlen (json (page_record (flash (snd (lifu_cfg_get s))))) LIFU_CFG_JSON_MAX = 0"
proof -
  note p = regenerated_flash(2)[OF assms]
  have v: "lifu_cfg_is_valid (fst (lifu_cfg_get s))"
    using assms(1,2)
    by (simp add: lifu_cfg_get_def lifu_cfg_ensure_loaded_def Let_def defaults_writeback_valid)
  have r: "fst (lifu_cfg_get s) =
     \<lparr>magic = LIFU_MAGIC, version = LIFU_VER, seq = 1,
      crc = crc16_ccitt (le32 LIFU_MAGIC @ le32 LIFU_VER @ le32 1) 12, reserved = 0,
      json = replicate LIFU_CFG_JSON_MAX 0,
      hv_settng = 0, hv_enabled = 0, auto_on = 0\<rparr>"
    using ensure_loaded_regenerates[OF assms(1,2)] by (simp add: lifu_cfg_get_def Let_def)
  have "memchr_found (replicate 496 0 @ replicate 1536 0xFF) 0 LIFU_CFG_JSON_MAX"
    unfolding memchr_found_iff by (rule exI[of _ 0]) (simp add: JSON_MAX_val nth_append)
  then show "lifu_cfg_is_valid (page_record (flash (snd (lifu_cfg_get s))))"
    unfolding p by (rule valid_json_change[OF v])
  show "magic (page_record (flash (snd (lifu_cfg_get s)))) = LIFU_MAGIC"
    unfolding p by (simp add: r)
  show "version (page_record (flash (snd (lifu_cfg_get s)))) = LIFU_VER"
    unfolding p by (simp add: r)
  show "seq (page_record (flash (snd (lifu_cfg_get s)))) = 1"
    unfolding p by (simp add: r)
  show "crc (page_record (flash (snd (lifu_cfg_get s)))) = crc (fst (lifu_cfg_get s))"
    unfolding p by simp
  show "strnlen (json (page_record (flash (snd (lifu_cfg_get s))))) LIFU_CFG_JSON_MAX = 0"
    unfolding p by (simp add: strnlen_zero_first)
qed

lemma regeneration_status_no_faults:
  assumes "faults (flash s) = []"
  shows "regeneration_status s = HAL_OK"
  unfolding regeneration_status_def
  by (rule writeback_flash_ok(1)) (simp_all add: load_raw_flash assms make_defaults_wf)

section \<open>The checksum and the payload\<close>

text \<open>
  C1. The \<open>crc\<close> field is to cover the header fields and the whole payload, so that a
  changed payload byte is noticed. In the code the checksum stops at \<open>offsetof(lifu_cfg_t,
  crc)\<close>, and the header places \<open>crc\<close> before \<open>json\<close> (\<open>calc_crc_header\<close>,
  \<open>calc_crc_json\<close>): the record that a factory reset stores is valid, and it is still
  valid after its first payload byte is changed from NUL to \<open>0x41\<close>.
\<close>

theorem payload_change_not_detected:
  "lifu_cfg_is_valid (g_cfg (snd (lifu_cfg_factory_reset (power_on blank_flash)))) \<and>
   json (g_cfg (snd (lifu_cfg_factory_reset (power_on blank_flash)))) ! 0 = 0 \<and>
   lifu_cfg_is_valid
     ((g_cfg (snd (lifu_cfg_factory_reset (power_on blank_flash))))
        \<lparr>json := (json (g_cfg (snd (lifu_cfg_factory_reset (power_on blank_flash)))))[0 := 0x41]\<rparr>)"
proof -
  define c where "c = g_cfg (snd (lifu_cfg_factory_reset (power_on blank_flash)))"
  have v: "lifu_cfg_is_valid c" unfolding c_def by (rule factory_reset_valid(1))
  have j: "json c = replicate LIFU_CFG_JSON_MAX 0" unfolding c_def by (rule factory_reset_json)
  have z: "json c ! 0 = 0" by (simp add: j JSON_MAX_val)
  have "memchr_found ((json c)[0 := 0x41]) 0 LIFU_CFG_JSON_MAX"
    unfolding memchr_found_iff by (rule exI[of _ 1]) (simp add: j JSON_MAX_val)
  then have "lifu_cfg_is_valid (c\<lparr>json := (json c)[0 := 0x41]\<rparr>)"
    by (rule valid_json_change[OF v])
  then show ?thesis using v z unfolding c_def by blast
qed

section \<open>What a write-back programs\<close>

text \<open>
  C2. A write-back is to leave every byte of the flash page equal to the byte of the
  cached record. \<open>lifu_cfg_writeback\<close> hands \<open>Flash_Write\<close> the size of the record in 32-bit
  words, 512, and \<open>Flash_Write\<close> takes it as a size in bytes. After a factory reset on a
  blank flash that reports success, byte 511 of the page has been programmed to the NUL
  of the record, while byte 512 and the last byte, 2047, are still erased (\<open>0xFF\<close>) where
  the record has NUL.
\<close>

theorem writeback_leaves_page_tail_erased:
  "fst (lifu_cfg_factory_reset (power_on blank_flash)) = HAL_OK \<and>
   cfg_bytes (g_cfg (snd (lifu_cfg_factory_reset (power_on blank_flash)))) ! 511 = 0 \<and>
   mem (flash (snd (lifu_cfg_factory_reset (power_on blank_flash)))) (LIFU_CFG_PAGE_ADDR + 511) = 0 \<and>
   cfg_bytes (g_cfg (snd (lifu_cfg_factory_reset (power_on blank_flash)))) ! 512 = 0 \<and>
   mem (flash (snd (lifu_cfg_factory_reset (power_on blank_flash)))) (LIFU_CFG_PAGE_ADDR + 512) = 0xFF \<and>
   cfg_bytes (g_cfg (snd (lifu_cfg_factory_reset (power_on blank_flash)))) ! 2047 = 0 \<and>
   mem (flash (snd (lifu_cfg_factory_reset (power_on blank_flash)))) (LIFU_CFG_PAGE_ADDR + 2047) = 0xFF"
proof -
  define s1 where "s1 = (lifu_cfg_ensure_loaded (power_on blank_flash))\<lparr>g_cfg :=
      lifu_cfg_make_defaults (g_cfg (lifu_cfg_ensure_loaded (power_on blank_flash)))\<rparr>"
  have fr: "lifu_cfg_factory_reset (power_on blank_flash) = lifu_cfg_writeback s1"
    by (simp add: lifu_cfg_factory_reset_def Let_def s1_def)
  have f: "faults (flash s1) = []"
    using ensure_loaded_faults[OF blank_power_on_facts] by (simp add: s1_def)
  have w: "wf_cfg (g_cfg s1)" by (simp add: s1_def make_defaults_wf)
  have ok: "fst (lifu_cfg_writeback s1) = HAL_OK" by (rule writeback_flash_ok(1)[OF f w])
  have "mem (flash (snd (lifu_cfg_writeback s1))) (LIFU_CFG_PAGE_ADDR + of_nat 511) =
        cfg_bytes (g_cfg (snd (lifu_cfg_writeback s1))) ! 511"
    by (rule writeback_flash_data[OF f w]) simp
  then have m511: "mem (flash (snd (lifu_cfg_writeback s1))) (LIFU_CFG_PAGE_ADDR + 511) =
        cfg_bytes (g_cfg (snd (lifu_cfg_writeback s1))) ! 511"
    by simp
  have "mem (flash (snd (lifu_cfg_writeback s1))) (LIFU_CFG_PAGE_ADDR + of_nat 512) = 0xFF"
    by (rule writeback_flash_ok(3)[OF f w]) simp_all
  then have m512: "mem (flash (snd (lifu_cfg_writeback s1))) (LIFU_CFG_PAGE_ADDR + 512) = 0xFF"
    by simp
  have "mem (flash (snd (lifu_cfg_writeback s1))) (LIFU_CFG_PAGE_ADDR + of_nat 2047) = 0xFF"
    by (rule writeback_flash_ok(3)[OF f w]) simp_all
  then have m2047: "mem (flash (snd (lifu_cfg_writeback s1))) (LIFU_CFG_PAGE_ADDR + 2047) = 0xFF"
    by simp
  have j: "json (g_cfg (snd (lifu_cfg_writeback s1))) = replicate LIFU_CFG_JSON_MAX 0"
    using factory_reset_json[of "power_on blank_flash"] by (simp add: fr)
  have b511: "cfg_bytes (g_cfg (snd (lifu_cfg_writeback s1))) ! 511 = 0"
    by (simp add: cfg_bytes_def nth_append length_le32 length_le16 j JSON_MAX_val)
  have b512: "cfg_bytes (g_cfg (snd (lifu_cfg_writeback s1))) ! 512 = 0"
    by (simp add: cfg_bytes_def nth_append length_le32 length_le16 j JSON_MAX_val)
  have b2047: "cfg_bytes (g_cfg (snd (lifu_cfg_writeback s1))) ! 2047 = 0"
    by (simp add: cfg_bytes_def nth_append length_le32 length_le16 j JSON_MAX_val)
  show ?thesis unfolding fr using ok m511 m512 m2047 b511 b512 b2047 by simp
qed

section \<open>The write counter\<close>

text \<open>
  C3, as the code has it. With \<open>seq\<close> read after the lazy load (the value \<open>lifu_cfg_get\<close>
  shows before the call): \<open>lifu_cfg_save\<close> and \<open>lifu_cfg_commit\<close> leave \<open>seq\<close> one higher in
  32-bit arithmetic, which is a strict increase unless \<open>seq\<close> was \<open>0xFFFFFFFF\<close>;
  \<open>lifu_cfg_factory_reset\<close> leaves \<open>seq\<close> at 1 whatever it was. This holds whether or not
  the flash steps succeed.
\<close>

theorem seq_after_write_back:
  "seq (g_cfg (snd (lifu_cfg_save cand s))) = seq (g_cfg (lifu_cfg_ensure_loaded s)) + 1 \<and>
   seq (g_cfg (snd (lifu_cfg_commit s))) = seq (g_cfg (lifu_cfg_ensure_loaded s)) + 1 \<and>
   seq (g_cfg (snd (lifu_cfg_factory_reset s))) = 1 \<and>
   (seq (g_cfg (lifu_cfg_ensure_loaded s)) \<noteq> 0xFFFFFFFF \<longrightarrow>
      seq (g_cfg (lifu_cfg_ensure_loaded s)) < seq (g_cfg (snd (lifu_cfg_save cand s))) \<and>
      seq (g_cfg (lifu_cfg_ensure_loaded s)) < seq (g_cfg (snd (lifu_cfg_commit s))))"
  by (simp add: save_fields commit_seq factory_reset_seq word32_less_succ)

text \<open>
  An instance on a blank flash: the lazy load leaves \<open>seq\<close> at 1, a save or a commit
  takes it to 2.
\<close>

theorem seq_after_write_back_witness:
  "seq (g_cfg (lifu_cfg_ensure_loaded (power_on blank_flash))) \<noteq> 0xFFFFFFFF \<and>
   seq (g_cfg (lifu_cfg_ensure_loaded (power_on blank_flash))) = 1 \<and>
   seq (g_cfg (snd (lifu_cfg_save cand_two_strings (power_on blank_flash)))) = 2 \<and>
   seq (g_cfg (snd (lifu_cfg_commit (power_on blank_flash)))) = 2 \<and>
   seq (g_cfg (lifu_cfg_ensure_loaded (power_on blank_flash)))
     < seq (g_cfg (snd (lifu_cfg_commit (power_on blank_flash))))"
proof -
  note t = seq_after_write_back[of cand_two_strings "power_on blank_flash"]
  note e = blank_ensure_seq
  have n: "seq (g_cfg (lifu_cfg_ensure_loaded (power_on blank_flash))) \<noteq> 0xFFFFFFFF"
    by (simp add: e)
  from t have "seq (g_cfg (snd (lifu_cfg_save cand_two_strings (power_on blank_flash)))) =
     seq (g_cfg (lifu_cfg_ensure_loaded (power_on blank_flash))) + 1" by blast
  then have a: "seq (g_cfg (snd (lifu_cfg_save cand_two_strings (power_on blank_flash)))) = 2"
    by (simp add: e)
  from t have "seq (g_cfg (snd (lifu_cfg_commit (power_on blank_flash)))) =
     seq (g_cfg (lifu_cfg_ensure_loaded (power_on blank_flash))) + 1" by blast
  then have b: "seq (g_cfg (snd (lifu_cfg_commit (power_on blank_flash)))) = 2"
    by (simp add: e)
  from t n have c: "seq (g_cfg (lifu_cfg_ensure_loaded (power_on blank_flash)))
     < seq (g_cfg (snd (lifu_cfg_commit (power_on blank_flash))))" by blast
  show ?thesis using n e a b c by blast
qed

text \<open>
  C3 as stated fails twice, on hardware that reports success throughout. A commit on a
  blank flash leaves \<open>seq\<close> at 2 and the factory reset after it takes \<open>seq\<close> down to 1.
  With the flash holding a valid record whose \<open>seq\<close> is \<open>0xFFFFFFFF\<close>, a commit takes
  \<open>seq\<close> to 0.
\<close>

theorem seq_reset_and_wrap:
  "fst (lifu_cfg_commit (power_on blank_flash)) = HAL_OK \<and>
   seq (g_cfg (snd (lifu_cfg_commit (power_on blank_flash)))) = 2 \<and>
   fst (lifu_cfg_factory_reset (snd (lifu_cfg_commit (power_on blank_flash)))) = HAL_OK \<and>
   seq (g_cfg (snd (lifu_cfg_factory_reset (snd (lifu_cfg_commit (power_on blank_flash)))))) = 1 \<and>
   seq (fst (lifu_cfg_get (power_on (flash_holding (cfg_bytes last_seq_cfg))))) = 0xFFFFFFFF \<and>
   fst (lifu_cfg_commit (snd (lifu_cfg_get (power_on (flash_holding (cfg_bytes last_seq_cfg)))))) = HAL_OK \<and>
   seq (g_cfg (snd (lifu_cfg_commit (snd (lifu_cfg_get (power_on (flash_holding (cfg_bytes last_seq_cfg)))))))) = 0"
proof -
  have c1: "fst (lifu_cfg_commit (power_on blank_flash)) = HAL_OK"
    by (rule commit_ok(1)[OF blank_power_on_facts])
  have c2: "seq (g_cfg (snd (lifu_cfg_commit (power_on blank_flash)))) = 2"
    by (simp add: commit_seq blank_ensure_seq)
  have f: "faults (flash (snd (lifu_cfg_commit (power_on blank_flash)))) = []"
    by (rule commit_ok(2)[OF blank_power_on_facts])
  have w: "wf_cfg (g_cfg (snd (lifu_cfg_commit (power_on blank_flash))))"
    by (rule commit_valid(2)[OF power_on_inv])
  have r1: "fst (lifu_cfg_factory_reset (snd (lifu_cfg_commit (power_on blank_flash)))) = HAL_OK"
    by (rule factory_reset_ok(1)[OF f w])
  have r2: "seq (g_cfg (snd (lifu_cfg_factory_reset (snd (lifu_cfg_commit (power_on blank_flash)))))) = 1"
    by (rule factory_reset_seq)
  define sA where "sA = lifu_cfg_ensure_loaded (power_on (flash_holding (cfg_bytes last_seq_cfg)))"
  have gA: "lifu_cfg_get (power_on (flash_holding (cfg_bytes last_seq_cfg))) = (g_cfg sA, sA)"
    by (simp add: lifu_cfg_get_def Let_def sA_def)
  have cA: "g_cfg sA = last_seq_cfg" unfolding sA_def by (rule ensure_loaded_last_seq)
  have fA: "faults (flash sA) = []"
    unfolding sA_def
    by (rule ensure_loaded_faults) (simp_all add: power_on_fields flash_holding_faults zero_cfg_wf)
  have wA: "wf_cfg (g_cfg sA)" by (simp add: cA last_seq_cfg_valid)
  have lA: "g_cfg_loaded sA" unfolding sA_def by (rule ensure_loaded_flag)
  have sq: "seq last_seq_cfg = 0xFFFFFFFF" by (simp add: last_seq_cfg_eq)
  have g1: "seq (fst (lifu_cfg_get (power_on (flash_holding (cfg_bytes last_seq_cfg))))) = 0xFFFFFFFF"
    by (simp add: gA cA sq)
  have g2: "fst (lifu_cfg_commit (snd (lifu_cfg_get (power_on (flash_holding (cfg_bytes last_seq_cfg)))))) = HAL_OK"
    unfolding gA snd_conv by (rule commit_ok(1)[OF fA wA])
  have g3: "seq (g_cfg (snd (lifu_cfg_commit (snd (lifu_cfg_get (power_on (flash_holding (cfg_bytes last_seq_cfg)))))))) = 0"
    unfolding gA snd_conv by (simp add: commit_seq ensure_loaded_id[OF lA] cA sq)
  show ?thesis using c1 c2 r1 r2 g1 g2 g3 by blast
qed

section \<open>First access to an invalid page\<close>

text \<open>
  C4, as the code has it. If the store is not loaded and the record read from flash fails
  \<open>lifu_cfg_is_valid\<close>, then \<open>lifu_cfg_get\<close> returns the defaults after one write-back:
  magic and version set, empty zero-filled payload, \<open>seq\<close> equal to 1 and the checksum that
  goes with it. The record is valid, it is the cached record, and the store is loaded;
  the status of the write-back is dropped, so nothing is reported to the caller. That
  write-back returns \<open>HAL_OK\<close> on hardware that reports no failure, and whenever it
  returned \<open>HAL_OK\<close>, whatever the hardware does later, flash holds that valid default
  record afterwards: the record that the store's own load reads back from the page is the
  record returned and passes \<open>lifu_cfg_is_valid\<close>; the whole page read as a record passes
  \<open>lifu_cfg_is_valid\<close> as well, with the same magic, version, \<open>seq\<close> 1 and checksum and with
  an empty payload string; and a store started afresh on that flash gets the same record
  from its first \<open>lifu_cfg_get\<close>.
\<close>

theorem get_regenerates_defaults:
  assumes "\<not> g_cfg_loaded s" "\<not> lifu_cfg_is_valid (g_cfg (lifu_cfg_load_raw s))"
  shows "fst (lifu_cfg_get s) =
           \<lparr>magic = LIFU_MAGIC, version = LIFU_VER, seq = 1,
            crc = crc16_ccitt (le32 LIFU_MAGIC @ le32 LIFU_VER @ le32 1) 12, reserved = 0,
            json = replicate LIFU_CFG_JSON_MAX 0,
            hv_settng = 0, hv_enabled = 0, auto_on = 0\<rparr> \<and>
         fst (lifu_cfg_get s) =
           (lifu_cfg_make_defaults d)\<lparr>seq := 1,
              crc := lifu_cfg_calc_crc ((lifu_cfg_make_defaults d)\<lparr>seq := 1\<rparr>)\<rparr> \<and>
         lifu_cfg_is_valid (fst (lifu_cfg_get s)) \<and>
         g_cfg (snd (lifu_cfg_get s)) = fst (lifu_cfg_get s) \<and>
         g_cfg_loaded (snd (lifu_cfg_get s)) \<and>
         (faults (flash s) = [] \<longrightarrow> regeneration_status s = HAL_OK) \<and>
         (regeneration_status s = HAL_OK \<longrightarrow>
            g_cfg (lifu_cfg_load_raw (power_on (flash (snd (lifu_cfg_get s))))) =
              fst (lifu_cfg_get s) \<and>
            lifu_cfg_is_valid (g_cfg (lifu_cfg_load_raw (power_on (flash (snd (lifu_cfg_get s)))))) \<and>
            lifu_cfg_is_valid (page_record (flash (snd (lifu_cfg_get s)))) \<and>
            magic (page_record (flash (snd (lifu_cfg_get s)))) = LIFU_MAGIC \<and>
            version (page_record (flash (snd (lifu_cfg_get s)))) = LIFU_VER \<and>
            seq (page_record (flash (snd (lifu_cfg_get s)))) = 1 \<and>
            crc (page_record (flash (snd (lifu_cfg_get s)))) = crc (fst (lifu_cfg_get s)) \<and>
            strnlen (json (page_record (flash (snd (lifu_cfg_get s))))) LIFU_CFG_JSON_MAX = 0 \<and>
            fst (lifu_cfg_get (power_on (flash (snd (lifu_cfg_get s))))) = fst (lifu_cfg_get s))"
proof -
  have g: "fst (lifu_cfg_get s) = g_cfg (lifu_cfg_ensure_loaded s)"
          "snd (lifu_cfg_get s) = lifu_cfg_ensure_loaded s"
    by (simp_all add: lifu_cfg_get_def Let_def)
  have v: "lifu_cfg_is_valid (g_cfg (lifu_cfg_ensure_loaded s))"
    using assms by (simp add: lifu_cfg_ensure_loaded_def Let_def defaults_writeback_valid)
  have a: "fst (lifu_cfg_get s) =
           \<lparr>magic = LIFU_MAGIC, version = LIFU_VER, seq = 1,
            crc = crc16_ccitt (le32 LIFU_MAGIC @ le32 LIFU_VER @ le32 1) 12, reserved = 0,
            json = replicate LIFU_CFG_JSON_MAX 0,
            hv_settng = 0, hv_enabled = 0, auto_on = 0\<rparr>"
    unfolding g by (rule ensure_loaded_regenerates[OF assms])
  have b: "fst (lifu_cfg_get s) =
           (lifu_cfg_make_defaults d)\<lparr>seq := 1,
              crc := lifu_cfg_calc_crc ((lifu_cfg_make_defaults d)\<lparr>seq := 1\<rparr>)\<rparr>"
    unfolding a by (simp add: make_defaults_eq calc_crc_header)
  have c: "lifu_cfg_is_valid (fst (lifu_cfg_get s))" unfolding g by (rule v)
  have d: "g_cfg (snd (lifu_cfg_get s)) = fst (lifu_cfg_get s)" by (simp add: g)
  have e: "g_cfg_loaded (snd (lifu_cfg_get s))" by (simp add: g ensure_loaded_flag)
  have n: "faults (flash s) = [] \<longrightarrow> regeneration_status s = HAL_OK"
    using regeneration_status_no_faults by blast
  have f: "regeneration_status s = HAL_OK \<longrightarrow>
            g_cfg (lifu_cfg_load_raw (power_on (flash (snd (lifu_cfg_get s))))) =
              fst (lifu_cfg_get s) \<and>
            lifu_cfg_is_valid (g_cfg (lifu_cfg_load_raw (power_on (flash (snd (lifu_cfg_get s)))))) \<and>
            lifu_cfg_is_valid (page_record (flash (snd (lifu_cfg_get s)))) \<and>
            magic (page_record (flash (snd (lifu_cfg_get s)))) = LIFU_MAGIC \<and>
            version (page_record (flash (snd (lifu_cfg_get s)))) = LIFU_VER \<and>
            seq (page_record (flash (snd (lifu_cfg_get s)))) = 1 \<and>
            crc (page_record (flash (snd (lifu_cfg_get s)))) = crc (fst (lifu_cfg_get s)) \<and>
            strnlen (json (page_record (flash (snd (lifu_cfg_get s))))) LIFU_CFG_JSON_MAX = 0 \<and>
            fst (lifu_cfg_get (power_on (flash (snd (lifu_cfg_get s))))) = fst (lifu_cfg_get s)"
  proof (intro impI)
    assume h: "regeneration_status s = HAL_OK"
    have l: "g_cfg (lifu_cfg_load_raw (power_on (flash (snd (lifu_cfg_get s))))) = fst (lifu_cfg_get s)"
      by (rule regenerated_flash(1)[OF assms h])
    have lv: "lifu_cfg_is_valid (g_cfg (lifu_cfg_load_raw (power_on (flash (snd (lifu_cfg_get s))))))"
      unfolding l by (rule c)
    note pv = regenerated_page_valid[OF assms h]
    note rs = regenerated_flash(3)[OF assms h]
    show "g_cfg (lifu_cfg_load_raw (power_on (flash (snd (lifu_cfg_get s))))) =
              fst (lifu_cfg_get s) \<and>
            lifu_cfg_is_valid (g_cfg (lifu_cfg_load_raw (power_on (flash (snd (lifu_cfg_get s)))))) \<and>
            lifu_cfg_is_valid (page_record (flash (snd (lifu_cfg_get s)))) \<and>
            magic (page_record (flash (snd (lifu_cfg_get s)))) = LIFU_MAGIC \<and>
            version (page_record (flash (snd (lifu_cfg_get s)))) = LIFU_VER \<and>
            seq (page_record (flash (snd (lifu_cfg_get s)))) = 1 \<and>
            crc (page_record (flash (snd (lifu_cfg_get s)))) = crc (fst (lifu_cfg_get s)) \<and>
            strnlen (json (page_record (flash (snd (lifu_cfg_get s))))) LIFU_CFG_JSON_MAX = 0 \<and>
            fst (lifu_cfg_get (power_on (flash (snd (lifu_cfg_get s))))) = fst (lifu_cfg_get s)"
      using l lv pv rs by blast
  qed
  show ?thesis using a b c d e n f by blast
qed

text \<open>
  An instance: first boot on a blank flash, the page it leaves, and the boot after it.
\<close>

theorem get_regenerates_defaults_witness:
  "\<not> g_cfg_loaded (power_on blank_flash) \<and>
   \<not> lifu_cfg_is_valid (g_cfg (lifu_cfg_load_raw (power_on blank_flash))) \<and>
   faults (flash (power_on blank_flash)) = [] \<and>
   regeneration_status (power_on blank_flash) = HAL_OK \<and>
   seq (fst (lifu_cfg_get (power_on blank_flash))) = 1 \<and>
   json (fst (lifu_cfg_get (power_on blank_flash))) = replicate LIFU_CFG_JSON_MAX 0 \<and>
   lifu_cfg_is_valid (fst (lifu_cfg_get (power_on blank_flash))) \<and>
   g_cfg (lifu_cfg_load_raw (power_on (flash (snd (lifu_cfg_get (power_on blank_flash)))))) =
     fst (lifu_cfg_get (power_on blank_flash)) \<and>
   lifu_cfg_is_valid
     (g_cfg (lifu_cfg_load_raw (power_on (flash (snd (lifu_cfg_get (power_on blank_flash))))))) \<and>
   lifu_cfg_is_valid (page_record (flash (snd (lifu_cfg_get (power_on blank_flash))))) \<and>
   seq (page_record (flash (snd (lifu_cfg_get (power_on blank_flash))))) = 1 \<and>
   fst (lifu_cfg_get (power_on (flash (snd (lifu_cfg_get (power_on blank_flash)))))) =
     fst (lifu_cfg_get (power_on blank_flash))"
proof -
  have a: "\<not> g_cfg_loaded (power_on blank_flash)" by (simp add: power_on_fields)
  note b = blank_load_invalid
  note t = get_regenerates_defaults[OF a b, of zero_cfg]
  from t have e: "fst (lifu_cfg_get (power_on blank_flash)) =
           \<lparr>magic = LIFU_MAGIC, version = LIFU_VER, seq = 1,
            crc = crc16_ccitt (le32 LIFU_MAGIC @ le32 LIFU_VER @ le32 1) 12, reserved = 0,
            json = replicate LIFU_CFG_JSON_MAX 0,
            hv_settng = 0, hv_enabled = 0, auto_on = 0\<rparr>"
    by blast
  from t have v: "lifu_cfg_is_valid (fst (lifu_cfg_get (power_on blank_flash)))" by blast
  have s1: "seq (fst (lifu_cfg_get (power_on blank_flash))) = 1" by (simp add: e)
  have j1: "json (fst (lifu_cfg_get (power_on blank_flash))) = replicate LIFU_CFG_JSON_MAX 0"
    by (simp add: e)
  have f: "faults (flash (power_on blank_flash)) = []" by (rule blank_power_on_facts(1))
  from t f have k: "regeneration_status (power_on blank_flash) = HAL_OK" by blast
  from t k have r1: "g_cfg (lifu_cfg_load_raw (power_on (flash (snd (lifu_cfg_get (power_on blank_flash)))))) =
     fst (lifu_cfg_get (power_on blank_flash))" by blast
  from t k have r2: "lifu_cfg_is_valid
     (g_cfg (lifu_cfg_load_raw (power_on (flash (snd (lifu_cfg_get (power_on blank_flash)))))))"
    by blast
  from t k have r3: "lifu_cfg_is_valid (page_record (flash (snd (lifu_cfg_get (power_on blank_flash)))))"
    by blast
  from t k have r5: "seq (page_record (flash (snd (lifu_cfg_get (power_on blank_flash))))) = 1"
    by blast
  from t k have r4: "fst (lifu_cfg_get (power_on (flash (snd (lifu_cfg_get (power_on blank_flash)))))) =
     fst (lifu_cfg_get (power_on blank_flash))" by blast
  show ?thesis using a b f k s1 j1 v r1 r2 r3 r5 r4 by blast
qed

text \<open>
  C4 as stated fails on a blank flash: the record returned has \<open>seq\<close> 1, not 0, and is not
  the record \<open>lifu_cfg_make_defaults\<close> builds. And on hardware that refuses to unlock the
  flash, the write-back fails, the page stays erased, and the store's load still reads an
  invalid record from it after the call.
\<close>

theorem get_on_blank_flash_has_seq_one:
  "\<not> g_cfg_loaded (power_on blank_flash) \<and>
   \<not> lifu_cfg_is_valid (g_cfg (lifu_cfg_load_raw (power_on blank_flash))) \<and>
   seq (fst (lifu_cfg_get (power_on blank_flash))) \<noteq> 0 \<and>
   fst (lifu_cfg_get (power_on blank_flash)) \<noteq> lifu_cfg_make_defaults zero_cfg \<and>
   \<not> g_cfg_loaded (power_on (blank_flash\<lparr>faults := [HAL_ERROR]\<rparr>)) \<and>
   \<not> lifu_cfg_is_valid
       (g_cfg (lifu_cfg_load_raw (power_on (blank_flash\<lparr>faults := [HAL_ERROR]\<rparr>)))) \<and>
   regeneration_status (power_on (blank_flash\<lparr>faults := [HAL_ERROR]\<rparr>)) = HAL_ERROR \<and>
   \<not> lifu_cfg_is_valid
       (g_cfg (lifu_cfg_load_raw (power_on (flash (snd (lifu_cfg_get
          (power_on (blank_flash\<lparr>faults := [HAL_ERROR]\<rparr>))))))))"
proof -
  have a: "\<not> g_cfg_loaded (power_on blank_flash)" by (simp add: power_on_fields)
  have s: "seq (fst (lifu_cfg_get (power_on blank_flash))) = 1"
    by (simp add: lifu_cfg_get_def Let_def ensure_loaded_regenerates[OF a blank_load_invalid])
  have d: "seq (lifu_cfg_make_defaults zero_cfg) = 0" by (simp add: make_defaults_eq)
  have n: "fst (lifu_cfg_get (power_on blank_flash)) \<noteq> lifu_cfg_make_defaults zero_cfg"
    using s d by (metis zero_neq_one)
  have a2: "\<not> g_cfg_loaded (power_on (blank_flash\<lparr>faults := [HAL_ERROR]\<rparr>))"
    by (simp add: power_on_fields)
  have i2: "\<not> lifu_cfg_is_valid
       (g_cfg (lifu_cfg_load_raw (power_on (blank_flash\<lparr>faults := [HAL_ERROR]\<rparr>))))"
    by (rule load_raw_invalid_erased) (simp add: power_on_fields blank_flash_def)
  note k = get_refused(2)
  have i3: "\<not> lifu_cfg_is_valid
       (g_cfg (lifu_cfg_load_raw (power_on (flash (snd (lifu_cfg_get
          (power_on (blank_flash\<lparr>faults := [HAL_ERROR]\<rparr>))))))))"
    by (rule load_raw_invalid_erased) (simp add: power_on_fields get_refused(1))
  show ?thesis using a blank_load_invalid s n a2 i2 k i3 by simp
qed

section \<open>Alignment of a flash write\<close>

text \<open>
  C5, as the code has it. \<open>Flash_Write\<close> at an address that is not a multiple of 8 leaves
  the flash untouched; it returns \<open>HAL_ERROR\<close> when the size is not zero and \<open>HAL_OK\<close> when
  the size is zero, since the size is tested first.
\<close>

theorem Flash_Write_misaligned:
  assumes "\<not> 8 dvd unat address"
  shows "Flash_Write hw address src size_bytes =
           (if size_bytes = 0 then HAL_OK else HAL_ERROR, hw)"
  using assms by (simp add: Flash_Write_def misaligned_iff)

text \<open>
  An instance: eight bytes to an address that is 4 modulo 8.
\<close>

theorem Flash_Write_misaligned_witness:
  "\<not> 8 dvd unat (0x0803F804 :: uint32_t) \<and>
   Flash_Write blank_flash 0x0803F804 [1, 2, 3, 4, 5, 6, 7, 8] 8 = (HAL_ERROR, blank_flash)"
proof -
  have a: "\<not> 8 dvd unat (0x0803F804 :: uint32_t)" by simp
  show ?thesis
    using a Flash_Write_misaligned[OF a, of blank_flash "[1, 2, 3, 4, 5, 6, 7, 8]" 8] by simp
qed

text \<open>
  C5 as stated fails for an empty buffer: the misaligned write returns \<open>HAL_OK\<close>.
\<close>

theorem Flash_Write_misaligned_empty_ok:
  "\<not> 8 dvd unat (0x0803F804 :: uint32_t) \<and>
   fst (Flash_Write blank_flash 0x0803F804 [] 0) = HAL_OK"
  by (simp add: Flash_Write_def)

section \<open>What a save keeps of the candidate\<close>

text \<open>
  C6, as the code has it. For a candidate of full size, whatever its own \<open>magic\<close>,
  \<open>version\<close>, \<open>seq\<close> and \<open>crc\<close>: after \<open>lifu_cfg_save\<close> the cached record has \<open>magic\<close> equal
  to \<open>LIFU_MAGIC\<close>, \<open>version\<close> equal to \<open>LIFU_VER\<close>, \<open>seq\<close> one more than after the lazy
  load, \<open>hv_settng\<close>, \<open>hv_enabled\<close> and \<open>auto_on\<close> of the candidate, and a checksum that
  matches. Its payload is the candidate's bytes before the first NUL among the first
  \<open>LIFU_CFG_JSON_MAX - 1\<close>, followed by NUL bytes up to the capacity: the write-back
  normalises what the save copied. This holds whether or not the flash steps succeed.
\<close>

theorem lifu_cfg_save_fields:
  assumes "wf_cfg (g_cfg s)" "wf_cfg cand"
  shows "magic (g_cfg (snd (lifu_cfg_save cand s))) = LIFU_MAGIC \<and>
         version (g_cfg (snd (lifu_cfg_save cand s))) = LIFU_VER \<and>
         seq (g_cfg (snd (lifu_cfg_save cand s))) = seq (g_cfg (lifu_cfg_ensure_loaded s)) + 1 \<and>
         hv_settng (g_cfg (snd (lifu_cfg_save cand s))) = hv_settng cand \<and>
         hv_enabled (g_cfg (snd (lifu_cfg_save cand s))) = hv_enabled cand \<and>
         auto_on (g_cfg (snd (lifu_cfg_save cand s))) = auto_on cand \<and>
         json (g_cfg (snd (lifu_cfg_save cand s))) =
           take (strnlen (json cand) (LIFU_CFG_JSON_MAX - 1)) (json cand) @
           replicate (LIFU_CFG_JSON_MAX - strnlen (json cand) (LIFU_CFG_JSON_MAX - 1)) 0 \<and>
         crc (g_cfg (snd (lifu_cfg_save cand s))) =
           lifu_cfg_calc_crc (g_cfg (snd (lifu_cfg_save cand s)))"
  using save_json[OF assms] save_fields[of cand s] by simp

text \<open>
  An instance: the candidate with a foreign header and the payload \<open>"A"\<close>, NUL, \<open>"B"\<close>,
  saved on first boot over a blank flash.
\<close>

theorem lifu_cfg_save_fields_witness:
  "wf_cfg (g_cfg (power_on blank_flash)) \<and> wf_cfg cand_two_strings \<and>
   magic (g_cfg (snd (lifu_cfg_save cand_two_strings (power_on blank_flash)))) = LIFU_MAGIC \<and>
   version (g_cfg (snd (lifu_cfg_save cand_two_strings (power_on blank_flash)))) = LIFU_VER \<and>
   seq (g_cfg (snd (lifu_cfg_save cand_two_strings (power_on blank_flash)))) = 2 \<and>
   hv_settng (g_cfg (snd (lifu_cfg_save cand_two_strings (power_on blank_flash)))) = 500 \<and>
   json (g_cfg (snd (lifu_cfg_save cand_two_strings (power_on blank_flash)))) =
     0x41 # replicate 2031 0"
proof -
  note a = blank_power_on_facts(2)
  note b = cand_two_strings_wf
  note t = lifu_cfg_save_fields[OF a b]
  have e: "seq (g_cfg (lifu_cfg_ensure_loaded (power_on blank_flash))) = 1"
    by (simp add: ensure_loaded_regenerates[OF _ blank_load_invalid] power_on_fields)
  from t have "seq (g_cfg (snd (lifu_cfg_save cand_two_strings (power_on blank_flash)))) =
               seq (g_cfg (lifu_cfg_ensure_loaded (power_on blank_flash))) + 1" by blast
  then have s2: "seq (g_cfg (snd (lifu_cfg_save cand_two_strings (power_on blank_flash)))) = 2"
    by (simp add: e)
  from t have "hv_settng (g_cfg (snd (lifu_cfg_save cand_two_strings (power_on blank_flash)))) =
               hv_settng cand_two_strings" by blast
  then have h: "hv_settng (g_cfg (snd (lifu_cfg_save cand_two_strings (power_on blank_flash)))) = 500"
    by (simp add: cand_two_strings_def)
  from t have "json (g_cfg (snd (lifu_cfg_save cand_two_strings (power_on blank_flash)))) =
           take (strnlen (json cand_two_strings) (LIFU_CFG_JSON_MAX - 1)) (json cand_two_strings) @
           replicate (LIFU_CFG_JSON_MAX - strnlen (json cand_two_strings) (LIFU_CFG_JSON_MAX - 1)) 0"
    by blast
  then have j: "json (g_cfg (snd (lifu_cfg_save cand_two_strings (power_on blank_flash)))) =
     0x41 # replicate 2031 0"
    unfolding cand_two_strings_strnlen by (simp add: cand_two_strings_def JSON_MAX_val)
  from t have m: "magic (g_cfg (snd (lifu_cfg_save cand_two_strings (power_on blank_flash)))) = LIFU_MAGIC"
    and v: "version (g_cfg (snd (lifu_cfg_save cand_two_strings (power_on blank_flash)))) = LIFU_VER"
    by blast+
  show ?thesis using a b m v s2 h j by blast
qed

text \<open>
  C6 as stated fails for that candidate: the save succeeds, and the cached payload is
  not the candidate's payload with its last byte set to NUL, because the \<open>"B"\<close> after the
  first NUL is zeroed.
\<close>

theorem save_drops_bytes_after_first_nul:
  "fst (lifu_cfg_save cand_two_strings (power_on blank_flash)) = HAL_OK \<and>
   json (g_cfg (snd (lifu_cfg_save cand_two_strings (power_on blank_flash)))) \<noteq>
     (json cand_two_strings)[LIFU_CFG_JSON_MAX - 1 := 0]"
proof -
  have ok: "fst (lifu_cfg_save cand_two_strings (power_on blank_flash)) = HAL_OK"
    by (rule save_ok(1)[OF blank_power_on_facts cand_two_strings_wf])
  have j: "json (g_cfg (snd (lifu_cfg_save cand_two_strings (power_on blank_flash)))) =
     0x41 # replicate 2031 0"
    unfolding save_json[OF blank_power_on_facts(2) cand_two_strings_wf] cand_two_strings_strnlen
    by (simp add: cand_two_strings_def JSON_MAX_val)
  have l: "(0x41 # replicate 2031 (0::uint8_t)) ! 2 = 0" by simp
  have r: "(json cand_two_strings)[LIFU_CFG_JSON_MAX - 1 := 0] ! 2 = 0x42"
    by (simp add: cand_two_strings_def JSON_MAX_val)
  have "(0x41 # replicate 2031 (0::uint8_t)) \<noteq> (json cand_two_strings)[LIFU_CFG_JSON_MAX - 1 := 0]"
  proof
    assume "(0x41 # replicate 2031 (0::uint8_t)) = (json cand_two_strings)[LIFU_CFG_JSON_MAX - 1 := 0]"
    then have "(0x41 # replicate 2031 (0::uint8_t)) ! 2 = (json cand_two_strings)[LIFU_CFG_JSON_MAX - 1 := 0] ! 2"
      by (rule arg_cong)
    then have "(0::uint8_t) = 0x42" unfolding l r .
    then show False by simp
  qed
  then show ?thesis using ok j by simp
qed

section \<open>The validity predicate\<close>

text \<open>
  C7. \<open>lifu_cfg_is_valid\<close> holds for a record if and only if its magic is \<open>LIFU_MAGIC\<close>, its
  version is \<open>LIFU_VER\<close>, some byte within the payload's capacity is NUL, and the checksum
  the store recomputes over the record equals the stored \<open>crc\<close> field. The result is a
  boolean: a record failing any one check is invalid, whatever the check.
\<close>

theorem lifu_cfg_is_valid_iff:
  "lifu_cfg_is_valid cfg =
     (magic cfg = LIFU_MAGIC \<and> version cfg = LIFU_VER \<and>
      (\<exists>i<LIFU_CFG_JSON_MAX. i < length (json cfg) \<and> json cfg ! i = 0) \<and>
      lifu_cfg_calc_crc cfg = crc cfg)"
  by (auto simp: lifu_cfg_is_valid_def memchr_found_iff)

section \<open>Reading the store\<close>

text \<open>
  C8. Two calls of \<open>lifu_cfg_get\<close> with nothing in between: the second returns the same
  record as the first and leaves the whole state as the first call left it, the flash
  memory and the record of flash reads, erases and programs included, so the second call
  performs no flash operation.
\<close>

theorem lifu_cfg_get_twice:
  "fst (lifu_cfg_get (snd (lifu_cfg_get s))) = fst (lifu_cfg_get s) \<and>
   snd (lifu_cfg_get (snd (lifu_cfg_get s))) = snd (lifu_cfg_get s) \<and>
   ops (flash (snd (lifu_cfg_get (snd (lifu_cfg_get s))))) = ops (flash (snd (lifu_cfg_get s))) \<and>
   mem (flash (snd (lifu_cfg_get (snd (lifu_cfg_get s))))) = mem (flash (snd (lifu_cfg_get s)))"
  by (simp add: lifu_cfg_get_def Let_def ensure_loaded_id ensure_loaded_flag)

text \<open>
  C9. \<open>lifu_cfg_snapshot\<close> returns \<open>HAL_ERROR\<close> exactly when the destination is the null
  pointer, and then touches nothing. For a destination buffer it makes sure the record is
  loaded, copies the whole cached record into the buffer and returns \<open>HAL_OK\<close>.
\<close>

theorem lifu_cfg_snapshot_result:
  "(fst (lifu_cfg_snapshot out s) = HAL_ERROR) = (out = None) \<and>
   lifu_cfg_snapshot None s = (HAL_ERROR, None, s) \<and>
   lifu_cfg_snapshot (Some b) s =
     (HAL_OK, Some (g_cfg (lifu_cfg_ensure_loaded s)), lifu_cfg_ensure_loaded s) \<and>
   g_cfg_loaded (lifu_cfg_ensure_loaded s)"
  by (cases out) (simp_all add: lifu_cfg_snapshot_def Let_def ensure_loaded_flag)

section \<open>The cached record stays valid\<close>

text \<open>
  C10, as the code has it, for every store whose cached record has its payload array at
  full size, reached in whatever way, edits in place of \<open>*lifu_cfg_get()\<close> included, and
  over any flash content and any script of hardware failures; the status of the flash
  erase and program steps plays no part.
  \<^item> From process start, after any sequence of public operations followed by \<open>lifu_cfg_get\<close>,
    \<open>lifu_cfg_snapshot\<close> with a destination buffer, \<open>lifu_cfg_save\<close>, \<open>lifu_cfg_commit\<close> or
    \<open>lifu_cfg_factory_reset\<close>, the cached record passes \<open>lifu_cfg_is_valid\<close>.
  \<^item> From any store that is not loaded, or is loaded with a valid cached record, each of
    these operations leaves a valid cached record.
  \<^item> \<open>lifu_cfg_save\<close> and \<open>lifu_cfg_factory_reset\<close> leave a valid cached record from any
    store, whatever was edited in place.
  \<^item> \<open>lifu_cfg_commit\<close> on a loaded store leaves a valid cached record exactly when magic
    and version of the cached record still have their constants: it recomputes the
    checksum and terminates the payload, and does not set magic or version again.
  \<^item> \<open>lifu_cfg_get\<close> and \<open>lifu_cfg_snapshot\<close> with a destination buffer leave the cached
    record of a loaded store as it is, valid or not.
  \<^item> \<open>lifu_cfg_snapshot\<close> with a null destination leaves the store as it is: it returns
    before the record is loaded.
\<close>

theorem cache_valid_after_public_op:
  assumes "wf_cfg (g_cfg s)" "wf_op x"
  shows
    "(list_all wf_op xs \<and> x \<noteq> Snapshot None \<longrightarrow>
        lifu_cfg_is_valid (g_cfg (run_op x (run_ops xs (power_on hw))))) \<and>
     (x \<noteq> Snapshot None \<and> (g_cfg_loaded s \<longrightarrow> lifu_cfg_is_valid (g_cfg s)) \<longrightarrow>
        lifu_cfg_is_valid (g_cfg (run_op x s))) \<and>
     ((\<exists>c. x = Save c) \<or> x = FactoryReset \<longrightarrow> lifu_cfg_is_valid (g_cfg (run_op x s))) \<and>
     (x = Commit \<and> g_cfg_loaded s \<longrightarrow>
        lifu_cfg_is_valid (g_cfg (run_op x s)) =
          (magic (g_cfg s) = LIFU_MAGIC \<and> version (g_cfg s) = LIFU_VER)) \<and>
     ((x = Get \<or> (\<exists>b. x = Snapshot (Some b))) \<and> g_cfg_loaded s \<longrightarrow>
        g_cfg (run_op x s) = g_cfg s) \<and>
     (x = Snapshot None \<longrightarrow> run_op x s = s)"
proof (intro conjI impI)
  assume a: "list_all wf_op xs \<and> x \<noteq> Snapshot None"
  show "lifu_cfg_is_valid (g_cfg (run_op x (run_ops xs (power_on hw))))"
    using run_op_valid[OF run_ops_inv[OF power_on_inv] assms(2)] a by blast
next
  assume a: "x \<noteq> Snapshot None \<and> (g_cfg_loaded s \<longrightarrow> lifu_cfg_is_valid (g_cfg s))"
  then have "store_inv s" using assms(1) by (simp add: store_inv_def)
  then show "lifu_cfg_is_valid (g_cfg (run_op x s))"
    using run_op_valid[OF _ assms(2)] a by blast
next
  assume "(\<exists>c. x = Save c) \<or> x = FactoryReset"
  then show "lifu_cfg_is_valid (g_cfg (run_op x s))"
    using save_valid_any[OF assms(1)] assms(2) factory_reset_valid(1)[of s] by auto
next
  assume "x = Commit \<and> g_cfg_loaded s"
  then show "lifu_cfg_is_valid (g_cfg (run_op x s)) =
          (magic (g_cfg s) = LIFU_MAGIC \<and> version (g_cfg s) = LIFU_VER)"
    using commit_loaded_valid_iff[OF _ assms(1)] by simp
next
  assume "(x = Get \<or> (\<exists>b. x = Snapshot (Some b))) \<and> g_cfg_loaded s"
  then show "g_cfg (run_op x s) = g_cfg s"
    by (auto simp: lifu_cfg_get_def lifu_cfg_snapshot_def Let_def ensure_loaded_id)
next
  assume "x = Snapshot None"
  then show "run_op x s = s" by (simp add: lifu_cfg_snapshot_def)
qed

text \<open>An instance: a get, a save of an all-zero candidate and a null snapshot, then a commit,
  on hardware that refuses the first erase; and a commit after the payload of the cached
  record was overwritten in place with 2032 letters and no terminator, which makes the
  record valid again.\<close>

theorem cache_valid_after_public_op_witness:
  "wf_cfg (g_cfg (edit_in_place (fill_json 0x41) (snd (lifu_cfg_get (power_on blank_flash))))) \<and>
   wf_op Commit \<and>
   list_all wf_op [Get, Save zero_cfg, Snapshot None] \<and>
   lifu_cfg_is_valid
     (g_cfg (run_op Commit (run_ops [Get, Save zero_cfg, Snapshot None]
        (power_on (blank_flash\<lparr>faults := [HAL_OK, HAL_ERROR]\<rparr>))))) \<and>
   g_cfg_loaded (edit_in_place (fill_json 0x41) (snd (lifu_cfg_get (power_on blank_flash)))) \<and>
   \<not> lifu_cfg_is_valid
       (g_cfg (edit_in_place (fill_json 0x41) (snd (lifu_cfg_get (power_on blank_flash))))) \<and>
   lifu_cfg_is_valid
     (g_cfg (run_op Commit
        (edit_in_place (fill_json 0x41) (snd (lifu_cfg_get (power_on blank_flash))))))"
proof -
  define sE where "sE = edit_in_place (fill_json 0x41) (snd (lifu_cfg_get (power_on blank_flash)))"
  have w: "wf_cfg (g_cfg sE)"
    by (simp add: sE_def edit_in_place_fields fill_json_def wf_cfg_def)
  have o: "wf_op Commit" by simp
  have l: "list_all wf_op [Get, Save zero_cfg, Snapshot None]"
    by (simp add: wf_cfg_def zero_cfg_def)
  have ld: "g_cfg_loaded sE" by (simp add: sE_def edit_in_place_fields first_get_blank)
  have mv: "magic (g_cfg sE) = LIFU_MAGIC \<and> version (g_cfg sE) = LIFU_VER"
    by (simp add: sE_def edit_in_place_fields fill_json_def first_get_blank)
  have iv: "\<not> lifu_cfg_is_valid (g_cfg sE)"
    by (simp add: sE_def edit_in_place_fields fill_json_invalid)
  note t = cache_valid_after_public_op[OF w o, of "[Get, Save zero_cfg, Snapshot None]"
      "blank_flash\<lparr>faults := [HAL_OK, HAL_ERROR]\<rparr>"]
  from t l have r: "lifu_cfg_is_valid
     (g_cfg (run_op Commit (run_ops [Get, Save zero_cfg, Snapshot None]
        (power_on (blank_flash\<lparr>faults := [HAL_OK, HAL_ERROR]\<rparr>)))))" by blast
  from t ld mv have c: "lifu_cfg_is_valid (g_cfg (run_op Commit sE))" by blast
  show ?thesis unfolding sE_def[symmetric] using w o l r ld iv c by blast
qed

text \<open>C10 as stated fails for the null snapshot: on a store not yet loaded it returns with
  the zero-initialised record still in the cache, whose magic is not \<open>LIFU_MAGIC\<close>. It
  fails for \<open>lifu_cfg_commit\<close> too: after magic was overwritten in place, the commit
  returns \<open>HAL_OK\<close> and the cached record is invalid.\<close>

theorem null_snapshot_and_edited_commit_leave_invalid_cache:
  "\<not> lifu_cfg_is_valid (g_cfg (run_op (Snapshot None) (power_on blank_flash))) \<and>
   fst (lifu_cfg_commit (edit_in_place (set_magic 0) (snd (lifu_cfg_get (power_on blank_flash)))))
     = HAL_OK \<and>
   \<not> lifu_cfg_is_valid
       (g_cfg (run_op Commit
          (edit_in_place (set_magic 0) (snd (lifu_cfg_get (power_on blank_flash))))))"
proof -
  define sM where "sM = edit_in_place (set_magic 0) (snd (lifu_cfg_get (power_on blank_flash)))"
  have a: "\<not> lifu_cfg_is_valid (g_cfg (run_op (Snapshot None) (power_on blank_flash)))"
    by (simp add: lifu_cfg_snapshot_def power_on_def lifu_cfg_is_valid_def zero_cfg_def
        LIFU_MAGIC_def)
  have w: "wf_cfg (g_cfg sM)"
    using first_get_blank(2) by (simp add: sM_def edit_in_place_fields set_magic_def wf_cfg_def)
  have f: "faults (flash sM) = []" by (simp add: sM_def edit_in_place_fields first_get_blank)
  have ld: "g_cfg_loaded sM" by (simp add: sM_def edit_in_place_fields first_get_blank)
  have m: "magic (g_cfg sM) \<noteq> LIFU_MAGIC"
    by (simp add: sM_def edit_in_place_fields set_magic_def LIFU_MAGIC_def)
  have ok: "fst (lifu_cfg_commit sM) = HAL_OK" by (rule commit_ok(1)[OF f w])
  have iv: "\<not> lifu_cfg_is_valid (g_cfg (run_op Commit sM))"
    using commit_loaded_valid_iff[OF ld w] m by simp
  show ?thesis unfolding sM_def[symmetric] using a ok iv by blast
qed

end
